theory Spec2Isabelle
  imports Main "HOL-Library.Word" "HOL-Library.Finite_Map"
begin

section \<open>Data model of threadpool.h\<close>

text \<open>
  Pointers to queue nodes are addresses; the null pointer is \<open>None\<close>.  A task function
  pointer and the opaque \<open>void *\<close> argument are plain values that the pool never inspects.
\<close>

type_synonym addr = nat
type_synonym task_func_t = nat
type_synonym void_ptr = nat

record task_node_t =
  func :: task_func_t
  arg :: void_ptr
  nxt :: "addr option"

text \<open>
  The \<open>lock\<close> and \<open>cond\<close> members of \<open>task_queue_t\<close> are opaque platform objects; every
  call made on them is recorded in the trace of the world (below), so the record keeps the
  two pointers only.
\<close>

record task_queue_t =
  front :: "addr option"
  rear :: "addr option"

text \<open>
  A slot of the \<open>threads\<close> array.  The array comes from \<open>malloc\<close>, so a slot that
  \<open>platform_thread_create\<close> never wrote holds an indeterminate handle.
\<close>

datatype platform_thread_t = Uninit | Thread nat

record thread_pool_t =
  threads :: "platform_thread_t list option"
  num_threads :: int
  queue :: task_queue_t
  keep_running :: int

text \<open>
  Everything the code does besides updating the pool object: the calls to the platform
  layer, the lines written to \<open>stderr\<close> and the task bodies invoked, in program order.
\<close>

datatype event =
    Stderr string
  | Mutex_init | Mutex_destroy | Mutex_lock | Mutex_unlock
  | Cond_init | Cond_destroy | Cond_wait | Cond_signal | Cond_broadcast
  | Thread_create nat
  | Thread_join platform_thread_t
  | Invoke task_func_t void_ptr

text \<open>
  The heap holds the live \<open>task_node_t\<close> objects: \<open>malloc\<close> adds one, \<open>free\<close> removes it.
\<close>

type_synonym heap = "(addr, task_node_t) fmap"

record world =
  heap :: heap
  trace :: "event list"

text \<open>
  C gives no meaning to a read or write through a pointer to no live object; the model
  stops with a fault there instead of inventing a value.
\<close>

datatype fault = Invalid_read addr | Invalid_write addr | Invalid_index nat

definition emit :: "event list \<Rightarrow> world \<Rightarrow> world" where
  "emit es w = w\<lparr>trace := trace w @ es\<rparr>"

section \<open>Internal queue operations (threadpool.c, lines 110 to 171)\<close>

definition queue_init :: "world \<Rightarrow> task_queue_t \<times> world" where
  "queue_init w = (\<lparr>front = None, rear = None\<rparr>, emit [Mutex_init, Cond_init] w)"

text \<open>
  The loop of \<open>queue_destroy\<close>: \<open>temp = q->front; q->front = q->front->next; free(temp)\<close>
  while \<open>q->front\<close> is not null.  Every round frees a live node, so the loop ends.
\<close>

function queue_destroy_loop :: "addr option \<Rightarrow> heap \<Rightarrow> fault + heap" where
  "queue_destroy_loop None h = Inr h"
| "queue_destroy_loop (Some a) h =
     (case fmlookup h a of
        None \<Rightarrow> Inl (Invalid_read a)
      | Some n \<Rightarrow> queue_destroy_loop (nxt n) (fmdrop a h))"
  by pat_completeness auto
termination
proof (relation "measure (\<lambda>(p, h). fcard (fmdom h))")
  show "wf (measure (\<lambda>(p, h). fcard (fmdom h)))"
    by simp
next
  fix a :: addr and h :: heap and n :: task_node_t
  assume "fmlookup h a = Some n"
  then have "a |\<in>| fmdom h"
    by (simp add: fmdomI)
  then have "fcard (fmdom h |-| {|a|}) < fcard (fmdom h)"
    by (rule fcard_fminus1_less)
  then show "((nxt n, fmdrop a h), (Some a, h)) \<in> measure (\<lambda>(p, h). fcard (fmdom h))"
    by simp
qed

definition queue_destroy :: "task_queue_t \<Rightarrow> world \<Rightarrow> fault + (task_queue_t \<times> world)" where
  "queue_destroy q w =
     (case queue_destroy_loop (front q) (heap w) of
        Inl e \<Rightarrow> Inl e
      | Inr h \<Rightarrow>
          Inr (\<lparr>front = None, rear = None\<rparr>,
               emit [Mutex_destroy, Cond_destroy] (w\<lparr>heap := h\<rparr>)))"

text \<open>
  \<open>queue_push\<close>; \<open>m\<close> is what \<open>malloc\<close> returned (\<open>None\<close> for \<open>NULL\<close>).
\<close>

definition queue_push ::
  "task_queue_t \<Rightarrow> task_func_t \<Rightarrow> void_ptr \<Rightarrow> addr option \<Rightarrow> world \<Rightarrow>
     fault + (task_queue_t \<times> world)" where
  "queue_push q f a m w =
     (case m of
        None \<Rightarrow> Inr (q, emit [Stderr ''queue_push: failed to allocate task_node\<newline>''] w)
      | Some node \<Rightarrow>
          (let h = fmupd node \<lparr>func = f, arg = a, nxt = None\<rparr> (heap w) in
           case rear q of
             None \<Rightarrow>
               Inr (\<lparr>front = Some node, rear = Some node\<rparr>,
                    emit [Mutex_lock, Cond_signal, Mutex_unlock] (w\<lparr>heap := h\<rparr>))
           | Some r \<Rightarrow>
               (case fmlookup h r of
                  None \<Rightarrow> Inl (Invalid_write r)
                | Some rn \<Rightarrow>
                    Inr (q\<lparr>rear := Some node\<rparr>,
                         emit [Mutex_lock, Cond_signal, Mutex_unlock]
                           (w\<lparr>heap := fmupd r (rn\<lparr>nxt := Some node\<rparr>) h\<rparr>)))))"

text \<open>
  \<open>queue_pop\<close> returns the node pointer (\<open>None\<close> for \<open>NULL\<close>) and the updated queue; it
  reads the heap and writes only the queue object.
\<close>

definition queue_pop :: "task_queue_t \<Rightarrow> heap \<Rightarrow> fault + (addr option \<times> task_queue_t)" where
  "queue_pop q h =
     (case front q of
        None \<Rightarrow> Inr (None, q)
      | Some node \<Rightarrow>
          (case fmlookup h node of
             None \<Rightarrow> Inl (Invalid_read node)
           | Some n \<Rightarrow>
               (let q1 = q\<lparr>front := nxt n\<rparr> in
                Inr (Some node, if front q1 = None then q1\<lparr>rear := None\<rparr> else q1))))"

section \<open>Public API (threadpool.c, lines 17 to 70)\<close>

text \<open>The decimal digits that \<open>%d\<close> prints for a non-negative \<open>int\<close>.\<close>

fun show_nat :: "nat \<Rightarrow> string" where
  "show_nat n =
     (if n < 10 then [''0123456789'' ! n]
      else show_nat (n div 10) @ [''0123456789'' ! (n mod 10)])"

declare show_nat.simps [simp del]

text \<open>
  The loop of \<open>thread_pool_init\<close> that creates the workers.  \<open>cr i\<close> is the outcome of the
  \<open>i\<close>-th call of \<open>platform_thread_create\<close>: \<open>Some h\<close> when it returned 0 and stored the
  handle \<open>h\<close> in \<open>pool->threads[i]\<close>, \<open>None\<close> when it failed and left the slot as it was.
  The array has \<open>num_threads\<close> slots and \<open>0 \<le> i < num_threads\<close>, so the write is in range.
\<close>

function create_loop ::
  "int \<Rightarrow> int \<Rightarrow> (nat \<Rightarrow> nat option) \<Rightarrow> platform_thread_t list \<Rightarrow> event list \<Rightarrow>
     platform_thread_t list \<times> event list" where
  "create_loop i n cr ts tr =
     (if i < n then
        (case cr (nat i) of
           Some h \<Rightarrow> create_loop (i + 1) n cr (ts[nat i := Thread h]) (tr @ [Thread_create (nat i)])
         | None \<Rightarrow>
             create_loop (i + 1) n cr ts
               (tr @ [Thread_create (nat i),
                      Stderr (''Error creating thread '' @ show_nat (nat i) @ ''\<newline>'')]))
      else (ts, tr))"
  by pat_completeness auto
termination
  by (relation "measure (\<lambda>(i, n, cr, ts, tr). nat (n - i))") auto

declare create_loop.simps [simp del]

text \<open>
  \<open>thread_pool_init\<close>.  The pool pointer is \<open>None\<close> for \<open>NULL\<close>, otherwise the object it
  points to, whose members hold whatever they held before the call.  \<open>arr\<close> says whether
  \<open>malloc\<close> returned an array for the handles.
\<close>

definition thread_pool_init ::
  "thread_pool_t option \<Rightarrow> int \<Rightarrow> bool \<Rightarrow> (nat \<Rightarrow> nat option) \<Rightarrow> world \<Rightarrow>
     thread_pool_t option \<times> world" where
  "thread_pool_init pool n arr cr w =
     (case pool of
        None \<Rightarrow> (None, w)
      | Some p \<Rightarrow>
          (let p1 = p\<lparr>num_threads := n,
                      threads := (if arr then Some (replicate (nat n) Uninit) else None)\<rparr> in
           case threads p1 of
             None \<Rightarrow>
               (Some p1,
                emit [Stderr ''thread_pool_init: failed to allocate thread handles\<newline>''] w)
           | Some ts \<Rightarrow>
               (let (q, w1) = queue_init w;
                    p2 = p1\<lparr>queue := q, keep_running := 1\<rparr>;
                    (ts', tr) = create_loop 0 n cr ts (trace w1)
                in (Some (p2\<lparr>threads := Some ts'\<rparr>), w1\<lparr>trace := tr\<rparr>))))"

text \<open>
  The loop of \<open>thread_pool_shutdown\<close> that joins the workers: one call of
  \<open>platform_thread_join\<close> on \<open>pool->threads[i]\<close> for every \<open>i < pool->num_threads\<close>.
\<close>

function join_loop ::
  "int \<Rightarrow> int \<Rightarrow> platform_thread_t list \<Rightarrow> event list \<Rightarrow> fault + event list" where
  "join_loop i n ts tr =
     (if i < n then
        (if 0 \<le> i \<and> nat i < length ts then join_loop (i + 1) n ts (tr @ [Thread_join (ts ! nat i)])
         else Inl (Invalid_index (nat i)))
      else Inr tr)"
  by pat_completeness auto
termination
  by (relation "measure (\<lambda>(i, n, ts, tr). nat (n - i))") auto

declare join_loop.simps [simp del]

definition thread_pool_shutdown ::
  "thread_pool_t option \<Rightarrow> world \<Rightarrow> fault + (thread_pool_t option \<times> world)" where
  "thread_pool_shutdown pool w =
     (case pool of
        None \<Rightarrow> Inr (None, w)
      | Some p \<Rightarrow>
          (case threads p of
             None \<Rightarrow> Inr (Some p, w)
           | Some ts \<Rightarrow>
               (let p1 = p\<lparr>keep_running := 0\<rparr>;
                    w1 = emit [Mutex_lock, Cond_broadcast, Mutex_unlock] w
                in case join_loop 0 (num_threads p1) ts (trace w1) of
                     Inl e \<Rightarrow> Inl e
                   | Inr tr \<Rightarrow>
                       (let p2 = p1\<lparr>threads := None, num_threads := 0\<rparr> in
                        case queue_destroy (queue p2) (w1\<lparr>trace := tr\<rparr>) of
                          Inl e \<Rightarrow> Inl e
                        | Inr (q, w2) \<Rightarrow> Inr (Some (p2\<lparr>queue := q\<rparr>), w2)))))"

definition thread_pool_add_task ::
  "thread_pool_t option \<Rightarrow> task_func_t \<Rightarrow> void_ptr \<Rightarrow> addr option \<Rightarrow> world \<Rightarrow>
     fault + (thread_pool_t option \<times> world)" where
  "thread_pool_add_task pool f a m w =
     (case pool of
        None \<Rightarrow> Inr (None, w)
      | Some p \<Rightarrow>
          (case queue_push (queue p) f a m w of
             Inl e \<Rightarrow> Inl e
           | Inr (q, w') \<Rightarrow> Inr (Some (p\<lparr>queue := q\<rparr>), w')))"

section \<open>Worker threads and the caller of shutdown, step by step\<close>

text \<open>
  Where a worker stands in \<open>worker_thread\<close> (lines 75 to 104):
  \<^item> \<open>W_absent\<close>: the thread was never created;
  \<^item> \<open>W_top\<close>: about to test \<open>pool->keep_running\<close> in the outer \<open>while\<close> (line 80);
  \<^item> \<open>W_lock\<close>: about to take the queue lock (line 81);
  \<^item> \<open>W_inner\<close>: holding the lock, about to test the inner \<open>while\<close> (line 84);
  \<^item> \<open>W_wait\<close>: blocked inside \<open>platform_cond_wait\<close>, the lock released (line 85);
  \<^item> \<open>W_wake\<close>: woken inside \<open>platform_cond_wait\<close>, about to take the lock again;
  \<^item> \<open>W_check\<close>: holding the lock, about to test \<open>!pool->keep_running\<close> (line 87);
  \<^item> \<open>W_pop\<close>: holding the lock, about to call \<open>queue_pop\<close> and unlock (lines 94, 95);
  \<^item> \<open>W_run node\<close>: about to call \<open>task->func(task->arg)\<close> (line 99);
  \<^item> \<open>W_body node\<close>: inside the task body; on its return the node is freed (line 100);
  \<^item> \<open>W_exit\<close>: returned.
\<close>

datatype wpc =
    W_absent | W_top | W_lock | W_inner | W_wait | W_wake | W_check | W_pop
  | W_run addr | W_body addr | W_exit

text \<open>
  Where the caller of \<open>thread_pool_shutdown\<close> stands (lines 40 to 64): not yet called; the
  flag cleared, about to lock, broadcast and unlock (lines 48 to 50); in the join loop with
  its counter \<open>i\<close> (lines 53 to 55); about to free the array and destroy the queue (lines 58
  to 63); returned.
\<close>

datatype spc = S_idle | S_lock | S_join nat | S_cleanup | S_done

text \<open>
  The pool with its threads: the shared pool object, heap and trace, the worker that holds
  the queue lock (if one does), the position of the worker created for each slot of
  \<open>threads\<close>, and the position of the caller of shutdown.
\<close>

record cstate =
  pool :: thread_pool_t
  wld :: world
  lock_owner :: "nat option"
  workers :: "wpc list"
  caller :: spc

text \<open>
  The threads interleave step by step.  One step is one access to \<open>keep_running\<close> (which
  is read and written without the lock), one acquisition of the lock, or one stretch of code
  run with the lock held, which no other thread's access to the queue can interrupt.

  One step of worker \<open>i\<close> from where it stands; \<open>None\<close> when the worker cannot move
  (blocked on the lock, waiting on the condition variable, returned, never created) or when
  C gives the step no meaning.  A test of the flag together with the lock-protected test of
  \<open>front\<close> is one step: the worker holds the lock, so \<open>front\<close> cannot change between the
  two reads.
\<close>

fun worker_at :: "wpc \<Rightarrow> nat \<Rightarrow> cstate \<Rightarrow> cstate option" where
  "worker_at W_absent i s = None"
| "worker_at W_top i s =
     Some (s\<lparr>workers := (workers s)[i := if keep_running (pool s) \<noteq> 0 then W_lock else W_exit]\<rparr>)"
| "worker_at W_lock i s =
     (case lock_owner s of
        Some j \<Rightarrow> None
      | None \<Rightarrow>
          Some (s\<lparr>lock_owner := Some i, wld := emit [Mutex_lock] (wld s),
                  workers := (workers s)[i := W_inner]\<rparr>))"
| "worker_at W_inner i s =
     (if front (queue (pool s)) = None \<and> keep_running (pool s) \<noteq> 0
      then Some (s\<lparr>lock_owner := None, wld := emit [Cond_wait] (wld s),
                   workers := (workers s)[i := W_wait]\<rparr>)
      else Some (s\<lparr>workers := (workers s)[i := W_pop]\<rparr>))"
| "worker_at W_wait i s = None"
| "worker_at W_wake i s =
     (case lock_owner s of
        Some j \<Rightarrow> None
      | None \<Rightarrow> Some (s\<lparr>lock_owner := Some i, workers := (workers s)[i := W_check]\<rparr>))"
| "worker_at W_check i s =
     (if keep_running (pool s) = 0
      then Some (s\<lparr>lock_owner := None, wld := emit [Mutex_unlock] (wld s),
                   workers := (workers s)[i := W_exit]\<rparr>)
      else Some (s\<lparr>workers := (workers s)[i := W_inner]\<rparr>))"
| "worker_at W_pop i s =
     (case queue_pop (queue (pool s)) (heap (wld s)) of
        Inl e \<Rightarrow> None
      | Inr (task, q) \<Rightarrow>
          Some (s\<lparr>pool := (pool s)\<lparr>queue := q\<rparr>, lock_owner := None,
                  wld := emit [Mutex_unlock] (wld s),
                  workers := (workers s)[i := case task of None \<Rightarrow> W_top | Some node \<Rightarrow> W_run node]\<rparr>))"
| "worker_at (W_run node) i s =
     (case fmlookup (heap (wld s)) node of
        None \<Rightarrow> None
      | Some n \<Rightarrow>
          Some (s\<lparr>wld := emit [Invoke (func n) (arg n)] (wld s),
                  workers := (workers s)[i := W_body node]\<rparr>))"
| "worker_at (W_body node) i s =
     (if node |\<in>| fmdom (heap (wld s))
      then Some (s\<lparr>wld := (wld s)\<lparr>heap := fmdrop node (heap (wld s))\<rparr>,
                   workers := (workers s)[i := W_top]\<rparr>)
      else None)"
| "worker_at W_exit i s = None"

definition worker_step :: "nat \<Rightarrow> cstate \<Rightarrow> cstate option" where
  "worker_step i s =
     (if length (workers s) \<le> i then None else worker_at (workers s ! i) i s)"

text \<open>
  Worker \<open>i\<close> is woken from its wait: by the signal of a push or spuriously, which
  condition variables allow at any time.  (So the signal itself only leaves its mark in
  the trace: whom it wakes, and when, is for the schedule to say.)
\<close>

definition wake_step :: "nat \<Rightarrow> cstate \<Rightarrow> cstate option" where
  "wake_step i s =
     (if i < length (workers s) \<and> workers s ! i = W_wait
      then Some (s\<lparr>workers := (workers s)[i := W_wake]\<rparr>)
      else None)"

text \<open>
  A producer calls \<open>thread_pool_add_task\<close>.  With a node from \<open>malloc\<close> (never one that is
  live) the call needs the lock, and what it does under the lock is one step; with \<open>NULL\<close>
  from \<open>malloc\<close> it returns before locking.
\<close>

definition submit_step :: "task_func_t \<Rightarrow> void_ptr \<Rightarrow> addr option \<Rightarrow> cstate \<Rightarrow> cstate option" where
  "submit_step f a m s =
     (if (case m of None \<Rightarrow> False | Some node \<Rightarrow> lock_owner s \<noteq> None \<or> node |\<in>| fmdom (heap (wld s)))
      then None
      else case thread_pool_add_task (Some (pool s)) f a m (wld s) of
             Inr (Some p, w) \<Rightarrow> Some (s\<lparr>pool := p, wld := w\<rparr>)
           | _ \<Rightarrow> None)"

text \<open>
  One step of the caller of \<open>thread_pool_shutdown\<close> from where it stands.
  \<open>platform_thread_join\<close> on \<open>threads[i]\<close> returns once the worker of slot \<open>i\<close> has
  returned; on a slot that no thread was created for, the handle is indeterminate and the
  call has no defined behaviour.  The broadcast wakes every worker that is waiting.  The
  last step frees the array and runs \<open>queue_destroy\<close>, which the code does without the
  lock; a submission at that very moment is taken before or after it.
\<close>

fun shutdown_at :: "spc \<Rightarrow> cstate \<Rightarrow> cstate option" where
  "shutdown_at S_idle s =
     (case threads (pool s) of
        None \<Rightarrow> Some (s\<lparr>caller := S_done\<rparr>)
      | Some ts \<Rightarrow> Some (s\<lparr>pool := (pool s)\<lparr>keep_running := 0\<rparr>, caller := S_lock\<rparr>))"
| "shutdown_at S_lock s =
     (case lock_owner s of
        Some j \<Rightarrow> None
      | None \<Rightarrow>
          Some (s\<lparr>wld := emit [Mutex_lock, Cond_broadcast, Mutex_unlock] (wld s),
                  workers := map (\<lambda>w. if w = W_wait then W_wake else w) (workers s),
                  caller := S_join 0\<rparr>))"
| "shutdown_at (S_join i) s =
     (if int i < num_threads (pool s) then
        (case threads (pool s) of
           None \<Rightarrow> None
         | Some ts \<Rightarrow>
             (if i < length ts \<and> i < length (workers s) then
                (case ts ! i of
                   Uninit \<Rightarrow> None
                 | Thread h \<Rightarrow>
                     (if workers s ! i = W_exit
                      then Some (s\<lparr>wld := emit [Thread_join (Thread h)] (wld s),
                                   caller := S_join (Suc i)\<rparr>)
                      else None))
              else None))
      else Some (s\<lparr>caller := S_cleanup\<rparr>))"
| "shutdown_at S_cleanup s =
     (let p = (pool s)\<lparr>threads := None, num_threads := 0\<rparr> in
      case queue_destroy (queue p) (wld s) of
        Inl e \<Rightarrow> None
      | Inr (q, w) \<Rightarrow> Some (s\<lparr>pool := p\<lparr>queue := q\<rparr>, wld := w, caller := S_done\<rparr>))"
| "shutdown_at S_done s = None"

definition shutdown_step :: "cstate \<Rightarrow> cstate option" where
  "shutdown_step s = shutdown_at (caller s) s"

text \<open>
  A schedule says who moves next; running it stops with \<open>None\<close> at a step that cannot be
  taken.
\<close>

datatype action = Work nat | Wake nat | Submit task_func_t void_ptr "addr option" | Shut

fun step :: "action \<Rightarrow> cstate \<Rightarrow> cstate option" where
  "step (Work i) s = worker_step i s"
| "step (Wake i) s = wake_step i s"
| "step (Submit f a m) s = submit_step f a m s"
| "step Shut s = shutdown_step s"

fun run :: "action list \<Rightarrow> cstate \<Rightarrow> cstate option" where
  "run [] s = Some s"
| "run (x # xs) s = (case step x s of None \<Rightarrow> None | Some s' \<Rightarrow> run xs s')"

text \<open>
  The pool right after \<open>thread_pool_init\<close>: every created worker at the top of its loop
  (its argument \<open>pool\<close> is not null, line 78), nobody holding the lock, shutdown not called.
\<close>

definition pool_start :: "thread_pool_t \<Rightarrow> world \<Rightarrow> cstate" where
  "pool_start p w =
     \<lparr>pool = p, wld = w, lock_owner = None,
      workers = (case threads p of
                   None \<Rightarrow> []
                 | Some ts \<Rightarrow> map (\<lambda>t. case t of Uninit \<Rightarrow> W_absent | Thread h \<Rightarrow> W_top) ts),
      caller = S_idle\<rparr>"

section \<open>Millisecond sleep (platform.c, lines 45 to 47 and 107 to 110)\<close>

text \<open>
  \<open>platform_sleep_ms\<close> takes an \<open>unsigned int\<close> and hands the operating system one number:
  \<open>Sleep(ms)\<close> in milliseconds on Windows, \<open>usleep(ms * 1000)\<close> in microseconds on POSIX,
  the product taken in \<open>unsigned int\<close>, 32 bits wide.
\<close>

datatype os_sleep = Sleep "32 word" | Usleep "32 word"

definition platform_sleep_ms_windows :: "32 word \<Rightarrow> os_sleep" where
  "platform_sleep_ms_windows ms = Sleep ms"

definition platform_sleep_ms_posix :: "32 word \<Rightarrow> os_sleep" where
  "platform_sleep_ms_posix ms = Usleep (ms * 1000)"

text \<open>The duration asked of the operating system, in microseconds.\<close>

fun requested_micros :: "os_sleep \<Rightarrow> nat" where
  "requested_micros (Sleep ms) = 1000 * unat ms"
| "requested_micros (Usleep us) = unat us"

section \<open>Reading the queue as a sequence of nodes\<close>

text \<open>
  \<open>node_chain h p as\<close>: following \<open>next\<close> from \<open>p\<close> visits exactly the live nodes \<open>as\<close> and
  then reaches the null pointer.
\<close>

fun node_chain :: "heap \<Rightarrow> addr option \<Rightarrow> addr list \<Rightarrow> bool" where
  "node_chain h p [] = (p = None)"
| "node_chain h p (a # as) =
     (p = Some a \<and> (case fmlookup h a of None \<Rightarrow> False | Some n \<Rightarrow> node_chain h (nxt n) as))"

text \<open>
  A well-formed queue holding the nodes \<open>as\<close>, oldest first: \<open>front\<close> starts the chain and
  \<open>rear\<close> is its last node, or null when there is none.
\<close>

definition queue_wf :: "heap \<Rightarrow> task_queue_t \<Rightarrow> addr list \<Rightarrow> bool" where
  "queue_wf h q as =
     (node_chain h (front q) as \<and> distinct as \<and>
      rear q = (if as = [] then None else Some (last as)))"

text \<open>The invariant of the spec: \<open>front\<close> is null exactly when \<open>rear\<close> is.\<close>

definition queue_null_inv :: "task_queue_t \<Rightarrow> bool" where
  "queue_null_inv q = ((front q = None) = (rear q = None))"

text \<open>The task a node pointer stands for: the \<open>func\<close> and \<open>arg\<close> members of the node.\<close>

definition task_of :: "heap \<Rightarrow> addr option \<Rightarrow> (task_func_t \<times> void_ptr) option" where
  "task_of h p =
     (case p of
        None \<Rightarrow> None
      | Some a \<Rightarrow> (case fmlookup h a of None \<Rightarrow> None | Some n \<Rightarrow> Some (func n, arg n)))"

text \<open>
  A producer pushing a sequence of tasks, each with the result of its own \<open>malloc\<close>, and a
  consumer popping \<open>k\<close> times in a row.
\<close>

definition with_node ::
  "task_func_t \<times> void_ptr \<Rightarrow> addr \<Rightarrow> task_func_t \<times> void_ptr \<times> addr option" where
  "with_node t m = (fst t, snd t, Some m)"

fun push_all ::
  "(task_func_t \<times> void_ptr \<times> addr option) list \<Rightarrow> task_queue_t \<Rightarrow> world \<Rightarrow>
     fault + (task_queue_t \<times> world)" where
  "push_all [] q w = Inr (q, w)"
| "push_all ((f, a, m) # ts) q w =
     (case queue_push q f a m w of
        Inl e \<Rightarrow> Inl e
      | Inr (q', w') \<Rightarrow> push_all ts q' w')"

fun pop_n :: "nat \<Rightarrow> task_queue_t \<Rightarrow> heap \<Rightarrow> fault + (addr option list \<times> task_queue_t)" where
  "pop_n 0 q h = Inr ([], q)"
| "pop_n (Suc k) q h =
     (case queue_pop q h of
        Inl e \<Rightarrow> Inl e
      | Inr (r, q') \<Rightarrow>
          (case pop_n k q' h of
             Inl e \<Rightarrow> Inl e
           | Inr (rs, q'') \<Rightarrow> Inr (r # rs, q'')))"

definition is_Invoke :: "event \<Rightarrow> bool" where
  "is_Invoke e = (case e of Invoke f a \<Rightarrow> True | _ \<Rightarrow> False)"

definition is_Thread_join :: "event \<Rightarrow> bool" where
  "is_Thread_join e = (case e of Thread_join t \<Rightarrow> True | _ \<Rightarrow> False)"

section \<open>Measures and invariants of the pool with its threads\<close>

text \<open>The task bodies begun so far.\<close>

definition invoked :: "cstate \<Rightarrow> nat" where
  "invoked s = length (filter is_Invoke (trace (wld s)))"

text \<open>
  A worker that has passed the test at the top of its loop and has not yet called the task
  it may find counts 1; \<open>may_invoke\<close> is the number of such workers.
\<close>

fun pending :: "wpc \<Rightarrow> nat" where
  "pending W_lock = 1"
| "pending W_inner = 1"
| "pending W_pop = 1"
| "pending (W_run node) = 1"
| "pending w = 0"

definition may_invoke :: "cstate \<Rightarrow> nat" where
  "may_invoke s = sum_list (map pending (workers s))"

text \<open>
  The steps a worker has left, at most, once the flag is cleared, and the steps the caller
  of shutdown has left with \<open>n\<close> workers to join.
\<close>

fun wrank :: "wpc \<Rightarrow> nat" where
  "wrank W_absent = 0"
| "wrank W_exit = 0"
| "wrank W_top = 1"
| "wrank W_check = 1"
| "wrank W_wake = 2"
| "wrank (W_body node) = 2"
| "wrank W_wait = 3"
| "wrank (W_run node) = 3"
| "wrank W_pop = 4"
| "wrank W_inner = 5"
| "wrank W_lock = 6"

fun srank :: "nat \<Rightarrow> spc \<Rightarrow> nat" where
  "srank n S_idle = n + 4"
| "srank n S_lock = n + 3"
| "srank n (S_join i) = (n - i) + 2"
| "srank n S_cleanup = 1"
| "srank n S_done = 0"

definition rank :: "cstate \<Rightarrow> nat" where
  "rank s = sum_list (map wrank (workers s)) + srank (length (workers s)) (caller s)"

fun is_Submit :: "action \<Rightarrow> bool" where
  "is_Submit (Submit f a m) = True"
| "is_Submit x = False"

text \<open>The node a worker has popped and not yet freed, if any.\<close>

fun held_by :: "wpc \<Rightarrow> addr option" where
  "held_by (W_run node) = Some node"
| "held_by (W_body node) = Some node"
| "held_by w = None"

fun holds_lock :: "wpc \<Rightarrow> bool" where
  "holds_lock W_inner = True"
| "holds_lock W_check = True"
| "holds_lock W_pop = True"
| "holds_lock w = False"

text \<open>
  What holds of every state the threads can reach from an initialised pool whose threads
  were all created: the lock is owned by a worker that stands in its critical section; the
  queue is well formed and the popped nodes are live, outside the queue and each held by
  one worker; the slots of \<open>threads\<close> match the workers until shutdown frees the array;
  and shutdown has cleared the flag once begun, has woken every waiter once it has
  broadcast, and has seen the workers it joined return.
\<close>

definition lock_ok :: "cstate \<Rightarrow> bool" where
  "lock_ok s =
     (case lock_owner s of
        None \<Rightarrow> True
      | Some i \<Rightarrow> i < length (workers s) \<and> holds_lock (workers s ! i))"

definition held_ok :: "heap \<Rightarrow> addr list \<Rightarrow> wpc list \<Rightarrow> bool" where
  "held_ok h as ws =
     (\<forall>i < length ws. \<forall>a. held_by (ws ! i) = Some a \<longrightarrow>
        a |\<in>| fmdom h \<and> a \<notin> set as \<and>
        (\<forall>j < length ws. j \<noteq> i \<longrightarrow> held_by (ws ! j) \<noteq> Some a))"

definition heap_ok :: "cstate \<Rightarrow> bool" where
  "heap_ok s =
     (\<exists>as. queue_wf (heap (wld s)) (queue (pool s)) as \<and> held_ok (heap (wld s)) as (workers s))"

definition pool_ok :: "cstate \<Rightarrow> bool" where
  "pool_ok s =
     ((\<forall>i < length (workers s). workers s ! i \<noteq> W_absent) \<and>
      (caller s = S_cleanup \<or> caller s = S_done \<or>
       (case threads (pool s) of
          None \<Rightarrow> False
        | Some ts \<Rightarrow>
            length ts = length (workers s) \<and> nat (num_threads (pool s)) = length (workers s) \<and>
            (\<forall>i < length ts. ts ! i \<noteq> Uninit))))"

fun shut_ok_at :: "spc \<Rightarrow> cstate \<Rightarrow> bool" where
  "shut_ok_at S_idle s = True"
| "shut_ok_at S_lock s = (keep_running (pool s) = 0)"
| "shut_ok_at (S_join k) s =
     (keep_running (pool s) = 0 \<and>
      (\<forall>i < length (workers s). workers s ! i \<noteq> W_wait \<and> (i < k \<longrightarrow> workers s ! i = W_exit)))"
| "shut_ok_at S_cleanup s =
     (keep_running (pool s) = 0 \<and> (\<forall>i < length (workers s). workers s ! i = W_exit))"
| "shut_ok_at S_done s =
     (keep_running (pool s) = 0 \<and> (\<forall>i < length (workers s). workers s ! i = W_exit))"

definition cinv :: "cstate \<Rightarrow> bool" where
  "cinv s = (lock_ok s \<and> heap_ok s \<and> pool_ok s \<and> shut_ok_at (caller s) s)"

section \<open>Properties of node chains and of the queue operations\<close>

lemma node_chain_fmupd_other:
  "a \<notin> set as \<Longrightarrow> node_chain (fmupd a n h) p as = node_chain h p as"
  by (induction as arbitrary: p) (auto split: option.splits)

lemma node_chain_fmdrop_other:
  "a \<notin> set as \<Longrightarrow> node_chain (fmdrop a h) p as = node_chain h p as"
  by (induction as arbitrary: p) (auto split: option.splits)

lemma node_chain_live:
  "node_chain h p as \<Longrightarrow> a \<in> set as \<Longrightarrow> a |\<in>| fmdom h"
  by (induction as arbitrary: p) (auto split: option.splits intro: fmdomI)

lemma node_chain_unique:
  "node_chain h p as \<Longrightarrow> node_chain h p bs \<Longrightarrow> as = bs"
proof (induction as arbitrary: p bs)
  case Nil
  then show ?case by (cases bs) auto
next
  case (Cons a as)
  then show ?case by (cases bs) (auto split: option.splits)
qed

lemma node_chain_snoc:
  assumes "node_chain h p as" and "as \<noteq> []" and "distinct as" and "m \<notin> set as"
    and "fmlookup h (last as) = Some rn" and "fmlookup h m = Some mn" and "nxt mn = None"
  shows "node_chain (fmupd (last as) (rn\<lparr>nxt := Some m\<rparr>) h) p (as @ [m])"
  using assms
proof (induction as arbitrary: p)
  case Nil
  then show ?case by simp
next
  case (Cons a as)
  show ?case
  proof (cases "as = []")
    case True
    with Cons.prems show ?thesis by (auto split: option.splits)
  next
    case False
    with Cons.prems have "a \<noteq> last as" by auto
    with False Cons show ?thesis by (auto split: option.splits)
  qed
qed

lemma queue_wf_null_inv: "queue_wf h q as \<Longrightarrow> queue_null_inv q"
  by (cases as) (auto simp: queue_wf_def queue_null_inv_def)

lemma queue_wf_init: "queue_wf h (fst (queue_init w)) []"
  by (simp add: queue_wf_def queue_init_def)

lemma queue_push_wf:
  assumes wf: "queue_wf (heap w) q as" and fresh: "m |\<notin>| fmdom (heap w)"
  shows "\<exists>q' w'. queue_push q f a (Some m) w = Inr (q', w') \<and>
           queue_wf (heap w') q' (as @ [m]) \<and>
           fmdom (heap w') = finsert m (fmdom (heap w)) \<and>
           task_of (heap w') (Some m) = Some (f, a) \<and>
           (\<forall>x. x \<noteq> m \<longrightarrow> task_of (heap w') (Some x) = task_of (heap w) (Some x)) \<and>
           trace w' = trace w @ [Mutex_lock, Cond_signal, Mutex_unlock]"
proof (cases "as = []")
  case True
  with wf have "rear q = None"
    by (simp add: queue_wf_def)
  with True show ?thesis
    by (simp add: queue_push_def queue_wf_def task_of_def emit_def)
next
  case False
  let ?mn = "\<lparr>func = f, arg = a, nxt = None\<rparr>"
  let ?h = "fmupd m ?mn (heap w)"
  from wf False have rear: "rear q = Some (last as)" and ch: "node_chain (heap w) (front q) as"
    and dist: "distinct as"
    by (simp_all add: queue_wf_def)
  from False have "last as \<in> set as"
    by simp
  with ch have live: "last as |\<in>| fmdom (heap w)"
    by (rule node_chain_live)
  then obtain rn where rn: "fmlookup (heap w) (last as) = Some rn"
    by (auto simp: fmdom.rep_eq dom_def fmlookup_dom_iff)
  have m_notin: "m \<notin> set as"
    using ch fresh node_chain_live by blast
  with \<open>last as \<in> set as\<close> have neq: "last as \<noteq> m"
    by auto
  have ch1: "node_chain ?h (front q) as"
    using ch m_notin by (simp add: node_chain_fmupd_other)
  have "node_chain (fmupd (last as) (rn\<lparr>nxt := Some m\<rparr>) ?h) (front q) (as @ [m])"
    by (rule node_chain_snoc [OF ch1 False dist m_notin, where mn = ?mn]) (use rn neq in simp_all)
  moreover have "fmdom (fmupd (last as) (rn\<lparr>nxt := Some m\<rparr>) ?h) = finsert m (fmdom (heap w))"
    using live by auto
  ultimately show ?thesis
    using rear rn neq m_notin dist False
    by (auto simp: queue_push_def queue_wf_def task_of_def emit_def)
qed


lemma queue_pop_empty: "front q = None \<Longrightarrow> queue_pop q h = Inr (None, q)"
  by (simp add: queue_pop_def)

lemma queue_pop_wf:
  assumes "queue_wf h q (a # as)"
  shows "\<exists>q'. queue_pop q h = Inr (Some a, q') \<and> queue_wf h q' as \<and>
           (as = [] \<longrightarrow> front q' = None \<and> rear q' = None) \<and>
           (as \<noteq> [] \<longrightarrow> front q' = Some (hd as) \<and> rear q' = rear q)"
proof -
  from assms obtain n where n: "fmlookup h a = Some n" and fr: "front q = Some a"
    and ch: "node_chain h (nxt n) as" and dist: "distinct as"
    and rear: "rear q = Some (last (a # as))"
    by (auto simp: queue_wf_def split: option.splits)
  show ?thesis
  proof (cases as)
    case Nil
    with n fr ch show ?thesis
      by (simp add: queue_pop_def queue_wf_def)
  next
    case (Cons b bs)
    with n fr ch dist rear show ?thesis
      by (auto simp: queue_pop_def queue_wf_def Let_def split: option.splits)
  qed
qed

lemma pop_n_wf:
  "queue_wf h q (as @ bs) \<Longrightarrow>
     \<exists>q'. pop_n (length as) q h = Inr (map Some as, q') \<and> queue_wf h q' bs"
proof (induction as arbitrary: q)
  case Nil
  then show ?case by simp
next
  case (Cons a as)
  from Cons.prems obtain q1 where q1: "queue_pop q h = Inr (Some a, q1)"
    and wf1: "queue_wf h q1 (as @ bs)"
    using queue_pop_wf [of h q a "as @ bs"] by auto
  from Cons.IH [OF wf1] obtain q2 where "pop_n (length as) q1 h = Inr (map Some as, q2)"
    and "queue_wf h q2 bs"
    by blast
  with q1 show ?case by simp
qed

lemma push_all_wf:
  assumes "queue_wf (heap w) q as"
    and "length ms = length ts"
    and "distinct ms"
    and "\<forall>m \<in> set ms. m |\<notin>| fmdom (heap w)"
  shows "\<exists>q' w'. push_all (map2 with_node ts ms) q w = Inr (q', w') \<and>
           queue_wf (heap w') q' (as @ ms) \<and>
           map (\<lambda>m. task_of (heap w') (Some m)) ms = map Some ts \<and>
           (\<forall>x. x \<notin> set ms \<longrightarrow> task_of (heap w') (Some x) = task_of (heap w) (Some x))"
  using assms
proof (induction ts arbitrary: ms q w as)
  case Nil
  then show ?case by simp
next
  case (Cons t ts)
  from Cons.prems(2) obtain m ms' where ms: "ms = m # ms'" and len: "length ms' = length ts"
    by (cases ms) auto
  from Cons.prems(4) ms have fresh: "m |\<notin>| fmdom (heap w)"
    by simp
  from queue_push_wf [OF Cons.prems(1) fresh, of "fst t" "snd t"]
  obtain q1 w1 where push: "queue_push q (fst t) (snd t) (Some m) w = Inr (q1, w1)"
    and wf1: "queue_wf (heap w1) q1 (as @ [m])"
    and dom1: "fmdom (heap w1) = finsert m (fmdom (heap w))"
    and task1: "task_of (heap w1) (Some m) = Some (fst t, snd t)"
    and keep1: "\<forall>x. x \<noteq> m \<longrightarrow> task_of (heap w1) (Some x) = task_of (heap w) (Some x)"
    by blast
  have dist: "distinct ms'" and m_notin: "m \<notin> set ms'"
    using Cons.prems(3) ms by simp_all
  have fresh1: "\<forall>x \<in> set ms'. x |\<notin>| fmdom (heap w1)"
  proof
    fix x assume x: "x \<in> set ms'"
    with m_notin have "x \<noteq> m" by auto
    moreover from x Cons.prems(4) ms have "x |\<notin>| fmdom (heap w)" by simp
    ultimately show "x |\<notin>| fmdom (heap w1)" by (simp add: dom1)
  qed
  from Cons.IH [OF wf1 len dist fresh1]
  obtain q2 w2 where rest: "push_all (map2 with_node ts ms') q1 w1 = Inr (q2, w2)"
    and wf2: "queue_wf (heap w2) q2 ((as @ [m]) @ ms')"
    and task2: "map (\<lambda>m. task_of (heap w2) (Some m)) ms' = map Some ts"
    and keep2: "\<forall>x. x \<notin> set ms' \<longrightarrow> task_of (heap w2) (Some x) = task_of (heap w1) (Some x)"
    by blast
  have "task_of (heap w2) (Some m) = Some t"
    using keep2 m_notin task1 by simp
  moreover have "\<forall>x. x \<notin> set ms \<longrightarrow> task_of (heap w2) (Some x) = task_of (heap w) (Some x)"
    using keep1 keep2 ms by simp
  moreover have "push_all (map2 with_node (t # ts) ms) q w = Inr (q2, w2)"
    using push rest ms by (simp add: with_node_def)
  moreover have "queue_wf (heap w2) q2 (as @ ms)"
    using wf2 ms by simp
  ultimately show ?case
    using task2 ms by simp
qed

lemma queue_destroy_loop_chain:
  "node_chain h p as \<Longrightarrow> distinct as \<Longrightarrow>
     queue_destroy_loop p h = Inr (fmfilter (\<lambda>x. x \<notin> set as) h)"
proof (induction as arbitrary: p h)
  case Nil
  then show ?case by simp
next
  case (Cons a as)
  from Cons.prems obtain n where p: "p = Some a" and n: "fmlookup h a = Some n"
    and ch: "node_chain h (nxt n) as" and a: "a \<notin> set as" and dist: "distinct as"
    by (auto split: option.splits)
  from ch a have "node_chain (fmdrop a h) (nxt n) as"
    by (simp add: node_chain_fmdrop_other)
  from Cons.IH [OF this dist]
  have "queue_destroy_loop (nxt n) (fmdrop a h) = Inr (fmfilter (\<lambda>x. x \<notin> set as) (fmdrop a h))" .
  moreover have "fmfilter (\<lambda>x. x \<notin> set as) (fmdrop a h) = fmfilter (\<lambda>x. x \<notin> set (a # as)) h"
    by (rule fmap_ext) auto
  ultimately show ?case
    using p n by simp
qed

section \<open>Properties of the join loop and of the sleep\<close>

lemma platform_sleep_ms_posix_exact:
  assumes "unat ms \<le> 4294967"
  shows "requested_micros (platform_sleep_ms_posix ms) = 1000 * unat ms"
proof -
  have "unat ms * unat (1000 :: 32 word) < 2 ^ LENGTH(32)"
    using assms by simp
  then have "unat (ms * 1000) = unat ms * unat (1000 :: 32 word)"
    by (rule unat_mult_lem [THEN iffD1])
  then show ?thesis
    by (simp add: platform_sleep_ms_posix_def)
qed

lemma join_loop_all:
  "0 \<le> i \<Longrightarrow> nat n \<le> length ts \<Longrightarrow>
     join_loop i n ts tr = Inr (tr @ map Thread_join (drop (nat i) (take (nat n) ts)))"
proof (induction i n ts tr rule: join_loop.induct)
  case (1 i n ts tr)
  show ?case
  proof (cases "i < n")
    case False
    with "1.prems" show ?thesis
      by (subst join_loop.simps) simp
  next
    case True
    with "1.prems" have in_range: "nat i < length ts" and lt: "nat i < nat n"
      by linarith+
    from "1.prems" have "nat (i + 1) = Suc (nat i)"
      by simp
    with "1.IH" [OF True] "1.prems" in_range
    have "join_loop (i + 1) n ts (tr @ [Thread_join (ts ! nat i)])
            = Inr ((tr @ [Thread_join (ts ! nat i)]) @ map Thread_join (drop (Suc (nat i)) (take (nat n) ts)))"
      by simp
    moreover have "drop (nat i) (take (nat n) ts) = ts ! nat i # drop (Suc (nat i)) (take (nat n) ts)"
      using in_range lt by (simp add: Cons_nth_drop_Suc [symmetric])
    ultimately show ?thesis
      using True "1.prems" in_range by (subst join_loop.simps) simp
  qed
qed

lemma shutdown_joins_all_slots:
  assumes "threads p = Some ts" and "nat (num_threads p) \<le> length ts"
    and "thread_pool_shutdown (Some p) w = Inr (r, w')"
  shows "filter is_Thread_join (trace w')
           = filter is_Thread_join (trace w) @ map Thread_join (take (nat (num_threads p)) ts)"
proof -
  let ?tr = "trace w @ [Mutex_lock, Cond_broadcast, Mutex_unlock]"
  have j: "join_loop 0 (num_threads p) ts ?tr
             = Inr (?tr @ map Thread_join (take (nat (num_threads p)) ts))"
    using join_loop_all [of 0 "num_threads p" ts ?tr] assms(2) by simp
  have f: "filter is_Thread_join (map Thread_join xs) = map Thread_join xs" for xs
    by (induction xs) (simp_all add: is_Thread_join_def)
  from assms(1,3) j show ?thesis
    by (auto simp: thread_pool_shutdown_def queue_destroy_def emit_def Let_def f
        is_Thread_join_def split: sum.splits)
qed

section \<open>Properties of the pool with its threads\<close>

lemma nth_update_if: "xs[i := x] ! j = (if i = j \<and> i < length xs then x else xs ! j)"
  by (cases "i < length xs") (simp_all add: list_update_beyond)

lemma held_okI:
  assumes "\<And>i a. i < length ws \<Longrightarrow> held_by (ws ! i) = Some a \<Longrightarrow> a |\<in>| fmdom h \<and> a \<notin> set as"
    and "\<And>i j a. i < length ws \<Longrightarrow> j < length ws \<Longrightarrow> held_by (ws ! i) = Some a \<Longrightarrow>
           held_by (ws ! j) = Some a \<Longrightarrow> i = j"
  shows "held_ok h as ws"
  unfolding held_ok_def using assms by blast

lemma held_ok_live:
  "held_ok h as ws \<Longrightarrow> i < length ws \<Longrightarrow> held_by (ws ! i) = Some a \<Longrightarrow> a |\<in>| fmdom h"
  unfolding held_ok_def by blast

lemma held_ok_not_in_queue:
  "held_ok h as ws \<Longrightarrow> i < length ws \<Longrightarrow> held_by (ws ! i) = Some a \<Longrightarrow> a \<notin> set as"
  unfolding held_ok_def by blast

lemma held_ok_unique:
  "held_ok h as ws \<Longrightarrow> i < length ws \<Longrightarrow> j < length ws \<Longrightarrow> held_by (ws ! i) = Some a \<Longrightarrow>
     held_by (ws ! j) = Some a \<Longrightarrow> i = j"
  unfolding held_ok_def by blast

lemma held_ok_update_none:
  assumes "held_ok h as ws" and "held_by w = None"
  shows "held_ok h as (ws[i := w])"
proof (rule held_okI)
  fix k a assume "k < length (ws[i := w])" and "held_by (ws[i := w] ! k) = Some a"
  with assms(2) have "k < length ws" and "held_by (ws ! k) = Some a"
    by (simp_all add: nth_update_if split: if_splits)
  then show "a |\<in>| fmdom h \<and> a \<notin> set as"
    using assms(1) held_ok_live held_ok_not_in_queue by blast
next
  fix k j a assume "k < length (ws[i := w])" and "j < length (ws[i := w])"
    and "held_by (ws[i := w] ! k) = Some a" and "held_by (ws[i := w] ! j) = Some a"
  with assms(2) have "k < length ws" and "j < length ws" and "held_by (ws ! k) = Some a"
    and "held_by (ws ! j) = Some a"
    by (simp_all add: nth_update_if split: if_splits)
  then show "k = j"
    using assms(1) held_ok_unique by blast
qed


lemma held_ok_update_same:
  assumes "held_ok h as ws" and "i < length ws" and "held_by w = held_by (ws ! i)"
  shows "held_ok h as (ws[i := w])"
proof -
  have same: "held_by (ws[i := w] ! k) = held_by (ws ! k)" for k
    using assms(3) by (simp add: nth_update_if)
  show ?thesis
    using assms(1) unfolding held_ok_def by (simp add: same)
qed

lemma held_ok_pop:
  assumes "held_ok h (a # as) ws" and "a |\<in>| fmdom h" and "a \<notin> set as" and "i < length ws"
  shows "held_ok h as (ws[i := W_run a])"
proof (rule held_okI)
  fix k b assume k: "k < length (ws[i := W_run a])"
    and b: "held_by (ws[i := W_run a] ! k) = Some b"
  show "b |\<in>| fmdom h \<and> b \<notin> set as"
  proof (cases "k = i")
    case True
    with b assms(4) have "b = a" by simp
    with assms(2,3) show ?thesis by simp
  next
    case False
    with k b have "k < length ws" and "held_by (ws ! k) = Some b" by simp_all
    with assms(1) have "b |\<in>| fmdom h" and "b \<notin> set (a # as)"
      by (blast dest: held_ok_live held_ok_not_in_queue)+
    then show ?thesis by simp
  qed
next
  fix k j b assume k: "k < length (ws[i := W_run a])" and j: "j < length (ws[i := W_run a])"
    and bk: "held_by (ws[i := W_run a] ! k) = Some b"
    and bj: "held_by (ws[i := W_run a] ! j) = Some b"
  have other: "held_by (ws ! m) \<noteq> Some a" if "m < length ws" for m
  proof
    assume "held_by (ws ! m) = Some a"
    with assms(1) that have "a \<notin> set (a # as)" by (rule held_ok_not_in_queue)
    then show False by simp
  qed
  show "k = j"
  proof (cases "k = i")
    case True
    with bk assms(4) have "b = a" by simp
    show ?thesis
    proof (rule ccontr)
      assume "k \<noteq> j"
      with True j bj \<open>b = a\<close> have "j < length ws" and "held_by (ws ! j) = Some a" by simp_all
      with other show False by blast
    qed
  next
    case kf: False
    show ?thesis
    proof (cases "j = i")
      case True
      with bj assms(4) have "b = a" by simp
      with kf k bk have "k < length ws" and "held_by (ws ! k) = Some a" by simp_all
      with other show ?thesis by blast
    next
      case False
      with kf k j bk bj have "k < length ws" "j < length ws" "held_by (ws ! k) = Some b"
        "held_by (ws ! j) = Some b" by simp_all
      with assms(1) show ?thesis by (rule held_ok_unique)
    qed
  qed
qed

lemma held_ok_free:
  assumes "held_ok h as ws" and "i < length ws" and "held_by (ws ! i) = Some a"
    and "held_by w = None"
  shows "held_ok (fmdrop a h) as (ws[i := w])"
proof (rule held_okI)
  fix k b assume "k < length (ws[i := w])" and "held_by (ws[i := w] ! k) = Some b"
  with assms(4) have k: "k < length ws" "k \<noteq> i" and b: "held_by (ws ! k) = Some b"
    by (auto simp: nth_update_if split: if_splits)
  from assms(1) k(1) b have "b |\<in>| fmdom h" and "b \<notin> set as"
    by (blast dest: held_ok_live held_ok_not_in_queue)+
  moreover have "b \<noteq> a"
    using held_ok_unique [OF assms(1) k(1) assms(2) b] assms(3) k(2) by auto
  ultimately show "b |\<in>| fmdom (fmdrop a h) \<and> b \<notin> set as"
    by simp
next
  fix k j b assume "k < length (ws[i := w])" and "j < length (ws[i := w])"
    and "held_by (ws[i := w] ! k) = Some b" and "held_by (ws[i := w] ! j) = Some b"
  with assms(4) have "k < length ws" and "j < length ws" and "held_by (ws ! k) = Some b"
    and "held_by (ws ! j) = Some b"
    by (simp_all add: nth_update_if split: if_splits)
  with assms(1) show "k = j"
    by (rule held_ok_unique)
qed

lemma held_ok_push:
  assumes "held_ok h as ws" and "m |\<notin>| fmdom h" and "fmdom h' = finsert m (fmdom h)"
  shows "held_ok h' (as @ [m]) ws"
proof (rule held_okI)
  fix k b assume "k < length ws" and "held_by (ws ! k) = Some b"
  with assms(1) have "b |\<in>| fmdom h" and "b \<notin> set as"
    by (blast dest: held_ok_live held_ok_not_in_queue)+
  with assms(2,3) show "b |\<in>| fmdom h' \<and> b \<notin> set (as @ [m])"
    by auto
next
  fix k j b assume "k < length ws" and "j < length ws" and "held_by (ws ! k) = Some b"
    and "held_by (ws ! j) = Some b"
  with assms(1) show "k = j"
    by (rule held_ok_unique)
qed

lemma held_ok_map:
  "(\<And>w. held_by (f w) = held_by w) \<Longrightarrow> held_ok h as (map f ws) = held_ok h as ws"
  by (simp add: held_ok_def)

lemma worker_stepD:
  "worker_step i s = Some s' \<Longrightarrow> i < length (workers s) \<and> worker_at (workers s ! i) i s = Some s'"
  by (simp add: worker_step_def split: if_splits)

lemma queue_wf_fmdrop:
  "queue_wf h q as \<Longrightarrow> a \<notin> set as \<Longrightarrow> queue_wf (fmdrop a h) q as"
  by (simp add: queue_wf_def node_chain_fmdrop_other)

lemma queue_wf_front_live:
  "queue_wf h q (a # as) \<Longrightarrow> a |\<in>| fmdom h \<and> a \<notin> set as"
  by (auto simp: queue_wf_def split: option.splits intro: fmdomI)

lemma heap_okI:
  "queue_wf (heap (wld s)) (queue (pool s)) as \<Longrightarrow> held_ok (heap (wld s)) as (workers s) \<Longrightarrow>
     heap_ok s"
  unfolding heap_ok_def by blast

lemma worker_step_heap_ok:
  assumes step: "worker_step i s = Some s'" and ok: "heap_ok s"
  shows "heap_ok s'"
proof -
  from worker_stepD [OF step] have i: "i < length (workers s)"
    and at: "worker_at (workers s ! i) i s = Some s'"
    by simp_all
  from ok obtain as where wf: "queue_wf (heap (wld s)) (queue (pool s)) as"
    and held: "held_ok (heap (wld s)) as (workers s)"
    unfolding heap_ok_def by blast
  show ?thesis
  proof (cases "workers s ! i")
    case W_absent
    with at show ?thesis by simp
  next
    case W_top
    with at have "s' = s\<lparr>workers := (workers s)[i := if keep_running (pool s) \<noteq> 0 then W_lock else W_exit]\<rparr>"
      by simp
    with wf held show ?thesis
      by (intro heap_okI [of _ as]) (simp_all add: held_ok_update_none)
  next
    case W_lock
    with at wf held show ?thesis
      by (auto split: option.splits intro!: heap_okI [of _ as] simp: emit_def held_ok_update_none)
  next
    case W_inner
    with at wf held show ?thesis
      by (auto split: if_splits intro!: heap_okI [of _ as] simp: emit_def held_ok_update_none)
  next
    case W_wait
    with at show ?thesis by simp
  next
    case W_wake
    with at wf held show ?thesis
      by (auto split: option.splits intro!: heap_okI [of _ as] simp: emit_def held_ok_update_none)
  next
    case W_check
    with at wf held show ?thesis
      by (auto split: if_splits intro!: heap_okI [of _ as] simp: emit_def held_ok_update_none)
  next
    case W_pop
    show ?thesis
    proof (cases as)
      case Nil
      with wf have "front (queue (pool s)) = None"
        by (simp add: queue_wf_def)
      then have "queue_pop (queue (pool s)) (heap (wld s)) = Inr (None, queue (pool s))"
        by (rule queue_pop_empty)
      with at W_pop wf held show ?thesis
        by (auto intro!: heap_okI [of _ as] simp: emit_def held_ok_update_none)
    next
      case (Cons a as')
      with wf queue_pop_wf [of "heap (wld s)" "queue (pool s)" a as']
      obtain q' where pop: "queue_pop (queue (pool s)) (heap (wld s)) = Inr (Some a, q')"
        and wf': "queue_wf (heap (wld s)) q' as'"
        by blast
      from wf Cons have "a |\<in>| fmdom (heap (wld s))" and "a \<notin> set as'"
        using queue_wf_front_live by blast+
      with held Cons i have "held_ok (heap (wld s)) as' ((workers s)[i := W_run a])"
        by (simp add: held_ok_pop)
      with at W_pop pop wf' show ?thesis
        by (auto intro!: heap_okI [of _ as'] simp: emit_def)
    qed
  next
    case (W_run a)
    with held i have "held_ok (heap (wld s)) as ((workers s)[i := W_body a])"
      by (simp add: held_ok_update_same)
    with at W_run wf show ?thesis
      by (auto split: option.splits intro!: heap_okI [of _ as] simp: emit_def)
  next
    case (W_body a)
    with held i have "a \<notin> set as"
      by (simp add: held_ok_not_in_queue)
    with wf have "queue_wf (fmdrop a (heap (wld s))) (queue (pool s)) as"
      by (rule queue_wf_fmdrop)
    moreover from held i W_body have "held_ok (fmdrop a (heap (wld s))) as ((workers s)[i := W_top])"
      by (simp add: held_ok_free)
    ultimately show ?thesis
      using at W_body by (auto split: if_splits intro!: heap_okI [of _ as])
  next
    case W_exit
    with at show ?thesis by simp
  qed
qed

lemma worker_step_caller [simp]: "worker_step i s = Some s' \<Longrightarrow> caller s' = caller s"
  using worker_stepD [of i s s']
  by (cases "workers s ! i") (auto split: if_splits option.splits sum.splits)

lemma worker_step_pool:
  "worker_step i s = Some s' \<Longrightarrow>
     keep_running (pool s') = keep_running (pool s) \<and> threads (pool s') = threads (pool s) \<and>
     num_threads (pool s') = num_threads (pool s)"
  using worker_stepD [of i s s']
  by (cases "workers s ! i") (auto split: if_splits option.splits sum.splits)

lemma worker_step_workers:
  "worker_step i s = Some s' \<Longrightarrow>
     \<exists>w. workers s' = (workers s)[i := w] \<and> w \<noteq> W_absent \<and>
         (keep_running (pool s) = 0 \<longrightarrow> w \<noteq> W_wait \<and> wrank w < wrank (workers s ! i) \<and>
            invoked s' + pending w \<le> invoked s + pending (workers s ! i))"
  using worker_stepD [of i s s']
  by (cases "workers s ! i")
    (auto split: if_splits option.splits sum.splits simp: invoked_def emit_def is_Invoke_def)

lemma worker_step_lock:
  "worker_step i s = Some s' \<Longrightarrow>
     lock_owner s' = None \<or>
     lock_owner s' = Some i \<and> holds_lock (workers s' ! i) \<or>
     lock_owner s' = lock_owner s \<and> (holds_lock (workers s ! i) \<longrightarrow> holds_lock (workers s' ! i))"
  using worker_stepD [of i s s']
  by (cases "workers s ! i") (auto split: if_splits option.splits sum.splits)

lemma worker_step_lock_ok:
  assumes step: "worker_step i s = Some s'" and ok: "lock_ok s"
  shows "lock_ok s'"
proof -
  from worker_step_workers [OF step] obtain w where ws: "workers s' = (workers s)[i := w]"
    by blast
  from worker_stepD [OF step] have i: "i < length (workers s)"
    by simp
  from worker_step_lock [OF step] show ?thesis
  proof (elim disjE conjE)
    assume "lock_owner s' = None"
    then show ?thesis by (simp add: lock_ok_def)
  next
    assume "lock_owner s' = Some i" and "holds_lock (workers s' ! i)"
    with i ws show ?thesis by (simp add: lock_ok_def)
  next
    assume same: "lock_owner s' = lock_owner s"
      and keep: "holds_lock (workers s ! i) \<longrightarrow> holds_lock (workers s' ! i)"
    show ?thesis
    proof (cases "lock_owner s")
      case None
      with same show ?thesis by (simp add: lock_ok_def)
    next
      case (Some j)
      with ok have "j < length (workers s)" and "holds_lock (workers s ! j)"
        by (simp_all add: lock_ok_def)
      with keep ws i have "holds_lock (workers s' ! j)"
        by (cases "j = i") simp_all
      with same Some ws \<open>j < length (workers s)\<close> show ?thesis
        by (simp add: lock_ok_def)
    qed
  qed
qed

lemma worker_step_pool_ok:
  assumes step: "worker_step i s = Some s'" and ok: "pool_ok s"
  shows "pool_ok s'"
proof -
  from worker_step_workers [OF step] obtain w where ws: "workers s' = (workers s)[i := w]"
    and w: "w \<noteq> W_absent"
    by blast
  have "workers s' ! k \<noteq> W_absent" if "k < length (workers s')" for k
    using that ok ws w by (cases "k = i") (simp_all add: pool_ok_def)
  moreover have "length (workers s') = length (workers s)"
    using ws by simp
  ultimately show ?thesis
    using ok worker_step_pool [OF step] worker_step_caller [OF step]
    by (simp add: pool_ok_def split: option.splits)
qed

lemma worker_step_shut_ok:
  assumes step: "worker_step i s = Some s'" and ok: "shut_ok_at (caller s) s"
  shows "shut_ok_at (caller s') s'"
proof -
  from worker_stepD [OF step] have i: "i < length (workers s)"
    and at: "worker_at (workers s ! i) i s = Some s'"
    by simp_all
  from worker_step_workers [OF step] obtain w where ws: "workers s' = (workers s)[i := w]"
    and w: "keep_running (pool s) = 0 \<longrightarrow> w \<noteq> W_wait"
    by blast
  note pool = worker_step_pool [OF step]
  have c: "caller s' = caller s"
    using step by simp
  have not_exit: "workers s ! i \<noteq> W_exit"
    using at by auto
  show ?thesis
  proof (cases "caller s")
    case S_idle
    with c show ?thesis by simp
  next
    case S_lock
    with c ok pool show ?thesis by simp
  next
    case (S_join k)
    with ok have flag: "keep_running (pool s) = 0"
      and all: "\<forall>j < length (workers s). workers s ! j \<noteq> W_wait \<and> (j < k \<longrightarrow> workers s ! j = W_exit)"
      by simp_all
    from all i not_exit have "\<not> i < k"
      by blast
    with all w flag ws have "\<forall>j < length (workers s'). workers s' ! j \<noteq> W_wait \<and>
        (j < k \<longrightarrow> workers s' ! j = W_exit)"
      by (auto simp: nth_update_if)
    with c S_join flag pool show ?thesis by simp
  next
    case S_cleanup
    with ok i not_exit show ?thesis by simp
  next
    case S_done
    with ok i not_exit show ?thesis by simp
  qed
qed

lemma worker_step_cinv: "worker_step i s = Some s' \<Longrightarrow> cinv s \<Longrightarrow> cinv s'"
  unfolding cinv_def
  using worker_step_lock_ok worker_step_heap_ok worker_step_pool_ok worker_step_shut_ok by blast

lemma sum_list_map_update:
  fixes f :: "'a \<Rightarrow> nat"
  shows "i < length xs \<Longrightarrow> sum_list (map f (xs[i := x])) + f (xs ! i) = sum_list (map f xs) + f x"
proof (induction xs arbitrary: i)
  case Nil
  then show ?case by simp
next
  case (Cons y ys)
  then show ?case by (cases i) auto
qed

lemma worker_step_measures:
  assumes step: "worker_step i s = Some s'" and flag: "keep_running (pool s) = 0"
  shows "rank s' < rank s \<and> invoked s' + may_invoke s' \<le> invoked s + may_invoke s"
proof -
  from worker_stepD [OF step] have i: "i < length (workers s)"
    by simp
  from worker_step_workers [OF step] flag obtain w where ws: "workers s' = (workers s)[i := w]"
    and less: "wrank w < wrank (workers s ! i)"
    and inv: "invoked s' + pending w \<le> invoked s + pending (workers s ! i)"
    by blast
  from sum_list_map_update [OF i, of wrank w] less
  have "sum_list (map wrank (workers s')) < sum_list (map wrank (workers s))"
    by (simp add: ws)
  then have "rank s' < rank s"
    using worker_step_caller [OF step] ws by (simp add: rank_def)
  moreover from sum_list_map_update [OF i, of pending w] inv
  have "invoked s' + may_invoke s' \<le> invoked s + may_invoke s"
    by (simp add: ws may_invoke_def)
  ultimately show ?thesis
    by simp
qed

lemma wake_stepD:
  "wake_step i s = Some s' \<Longrightarrow>
     i < length (workers s) \<and> workers s ! i = W_wait \<and> s' = s\<lparr>workers := (workers s)[i := W_wake]\<rparr>"
  by (auto simp: wake_step_def split: if_splits)

lemma wake_step_cinv:
  assumes step: "wake_step i s = Some s'" and ok: "cinv s"
  shows "cinv s'"
proof -
  from wake_stepD [OF step] have i: "i < length (workers s)" and at: "workers s ! i = W_wait"
    and s': "s' = s\<lparr>workers := (workers s)[i := W_wake]\<rparr>"
    by simp_all
  from ok have lock: "lock_ok s" and heap: "heap_ok s" and pool: "pool_ok s"
    and shut: "shut_ok_at (caller s) s"
    by (simp_all add: cinv_def)
  have "lock_ok s'"
  proof (cases "lock_owner s")
    case None
    with s' show ?thesis by (simp add: lock_ok_def)
  next
    case (Some j)
    with lock at have "j \<noteq> i" and "j < length (workers s)" and "holds_lock (workers s ! j)"
      by (auto simp: lock_ok_def)
    with Some s' show ?thesis by (simp add: lock_ok_def)
  qed
  moreover have "heap_ok s'"
    using heap s' unfolding heap_ok_def by (auto simp: held_ok_update_none)
  moreover have "pool_ok s'"
    using pool s' by (auto simp: pool_ok_def nth_update_if split: option.splits)
  moreover have "shut_ok_at (caller s') s'"
    using shut s' i at by (cases "caller s") (auto simp: nth_update_if)
  ultimately show ?thesis
    by (simp add: cinv_def)
qed

lemma wake_step_measures:
  assumes step: "wake_step i s = Some s'"
  shows "rank s' < rank s \<and> invoked s' + may_invoke s' \<le> invoked s + may_invoke s \<and>
         caller s' = caller s"
proof -
  from wake_stepD [OF step] have i: "i < length (workers s)" and at: "workers s ! i = W_wait"
    and s': "s' = s\<lparr>workers := (workers s)[i := W_wake]\<rparr>"
    by simp_all
  from sum_list_map_update [OF i, of wrank W_wake] at
  have "sum_list (map wrank (workers s')) < sum_list (map wrank (workers s))"
    by (simp add: s')
  moreover from sum_list_map_update [OF i, of pending W_wake] at
  have "may_invoke s' = may_invoke s"
    by (simp add: s' may_invoke_def)
  ultimately show ?thesis
    using s' by (simp add: rank_def invoked_def)
qed

lemma queue_push_trace:
  "queue_push q f a m w = Inr (q', w') \<Longrightarrow>
     filter is_Invoke (trace w') = filter is_Invoke (trace w)"
  by (auto simp: queue_push_def emit_def is_Invoke_def Let_def split: option.splits)

lemma submit_stepD:
  assumes "submit_step f a m s = Some s'"
  shows "\<exists>q w. queue_push (queue (pool s)) f a m (wld s) = Inr (q, w) \<and>
           s' = s\<lparr>pool := (pool s)\<lparr>queue := q\<rparr>, wld := w\<rparr> \<and>
           (\<forall>node. m = Some node \<longrightarrow> node |\<notin>| fmdom (heap (wld s)))"
  using assms
  by (auto simp: submit_step_def thread_pool_add_task_def split: if_splits option.splits sum.splits)

lemma submit_step_cinv:
  assumes step: "submit_step f a m s = Some s'" and ok: "cinv s"
  shows "cinv s'"
proof -
  from submit_stepD [OF step] obtain q w
    where push: "queue_push (queue (pool s)) f a m (wld s) = Inr (q, w)"
      and s': "s' = s\<lparr>pool := (pool s)\<lparr>queue := q\<rparr>, wld := w\<rparr>"
      and fresh: "\<forall>node. m = Some node \<longrightarrow> node |\<notin>| fmdom (heap (wld s))"
    by blast
  from ok have lock: "lock_ok s" and heap: "heap_ok s" and pool: "pool_ok s"
    and shut: "shut_ok_at (caller s) s"
    by (simp_all add: cinv_def)
  from heap obtain as where wf: "queue_wf (heap (wld s)) (queue (pool s)) as"
    and held: "held_ok (heap (wld s)) as (workers s)"
    unfolding heap_ok_def by blast
  have "heap_ok s'"
  proof (cases m)
    case None
    with push have "q = queue (pool s)" and "heap w = heap (wld s)"
      by (auto simp: queue_push_def emit_def)
    with wf held s' show ?thesis
      by (intro heap_okI [of _ as]) simp_all
  next
    case (Some node)
    with fresh have fr: "node |\<notin>| fmdom (heap (wld s))"
      by simp
    from queue_push_wf [OF wf fr, of f a] push Some
    have wf': "queue_wf (heap w) q (as @ [node])"
      and dom: "fmdom (heap w) = finsert node (fmdom (heap (wld s)))"
      by auto
    from held_ok_push [OF held fr dom] wf' s' show ?thesis
      by (intro heap_okI [of _ "as @ [node]"]) simp_all
  qed
  moreover have "lock_ok s'"
    using lock s' by (simp add: lock_ok_def split: option.splits)
  moreover have "pool_ok s'"
    using pool s' by (simp add: pool_ok_def split: option.splits)
  moreover have "shut_ok_at (caller s') s'"
    using shut s' by (cases "caller s") simp_all
  ultimately show ?thesis
    by (simp add: cinv_def)
qed

lemma submit_step_measures:
  assumes step: "submit_step f a m s = Some s'"
  shows "rank s' = rank s \<and> invoked s' = invoked s \<and> may_invoke s' = may_invoke s \<and>
         caller s' = caller s"
proof -
  from submit_stepD [OF step] obtain q w
    where push: "queue_push (queue (pool s)) f a m (wld s) = Inr (q, w)"
      and s': "s' = s\<lparr>pool := (pool s)\<lparr>queue := q\<rparr>, wld := w\<rparr>"
    by blast
  from queue_push_trace [OF push] s' show ?thesis
    by (simp add: rank_def invoked_def may_invoke_def)
qed

lemma queue_destroy_trace:
  "queue_destroy q w = Inr (q', w') \<Longrightarrow>
     filter is_Invoke (trace w') = filter is_Invoke (trace w) \<and> front q' = None \<and> rear q' = None"
  by (auto simp: queue_destroy_def emit_def is_Invoke_def split: sum.splits)

lemma shutdown_step_measures:
  assumes step: "shutdown_step s = Some s'"
  shows "rank s' < rank s \<and> invoked s' = invoked s \<and> may_invoke s' = may_invoke s \<and>
         caller s' \<noteq> S_idle"
proof (cases "caller s")
  case S_idle
  with step show ?thesis
    by (auto simp: shutdown_step_def rank_def invoked_def may_invoke_def split: option.splits)
next
  case S_lock
  let ?f = "\<lambda>w. if w = W_wait then W_wake else w"
  from S_lock step have s': "s' = s\<lparr>wld := emit [Mutex_lock, Cond_broadcast, Mutex_unlock] (wld s),
      workers := map ?f (workers s), caller := S_join 0\<rparr>"
    by (auto simp: shutdown_step_def split: option.splits)
  have "sum_list (map (wrank \<circ> ?f) (workers s)) \<le> sum_list (map wrank (workers s))"
    by (rule sum_list_mono) simp
  moreover have "sum_list (map (pending \<circ> ?f) (workers s)) = sum_list (map pending (workers s))"
    by (rule arg_cong [where f = sum_list]) simp
  ultimately show ?thesis
    using S_lock s' by (simp add: rank_def invoked_def may_invoke_def emit_def is_Invoke_def)
next
  case (S_join k)
  with step show ?thesis
    by (auto simp: shutdown_step_def rank_def invoked_def may_invoke_def emit_def is_Invoke_def
        split: if_splits option.splits platform_thread_t.splits)
next
  case S_cleanup
  with step obtain q w where d: "queue_destroy (queue (pool s)) (wld s) = Inr (q, w)"
    and s': "s' = s\<lparr>pool := (pool s)\<lparr>threads := None, num_threads := 0, queue := q\<rparr>, wld := w,
                   caller := S_done\<rparr>"
    by (auto simp: shutdown_step_def split: sum.splits)
  from queue_destroy_trace [OF d] S_cleanup s' show ?thesis
    by (simp add: rank_def invoked_def may_invoke_def)
next
  case S_done
  with step show ?thesis
    by (simp add: shutdown_step_def)
qed

lemma held_ok_all_exit:
  "\<forall>i < length ws. ws ! i = W_exit \<Longrightarrow> held_ok h as ws"
  by (simp add: held_ok_def)

lemma shutdown_step_cinv:
  assumes step: "shutdown_step s = Some s'" and ok: "cinv s"
  shows "cinv s'"
proof -
  from ok have lock: "lock_ok s" and heap: "heap_ok s" and pool: "pool_ok s"
    and shut: "shut_ok_at (caller s) s"
    by (simp_all add: cinv_def)
  from heap obtain as where wf: "queue_wf (heap (wld s)) (queue (pool s)) as"
    and held: "held_ok (heap (wld s)) as (workers s)"
    unfolding heap_ok_def by blast
  from pool have present: "\<forall>i < length (workers s). workers s ! i \<noteq> W_absent"
    by (simp add: pool_ok_def)
  show ?thesis
  proof (cases "caller s")
    case S_idle
    with pool obtain ts where ts: "threads (pool s) = Some ts"
      by (auto simp: pool_ok_def split: option.splits)
    with step S_idle have s': "s' = s\<lparr>pool := (pool s)\<lparr>keep_running := 0\<rparr>, caller := S_lock\<rparr>"
      by (simp add: shutdown_step_def)
    have "lock_ok s'"
      using lock s' by (simp add: lock_ok_def split: option.splits)
    moreover have "heap_ok s'"
      using wf held s' by (intro heap_okI [of _ as]) simp_all
    moreover have "pool_ok s'"
      using pool s' S_idle by (simp add: pool_ok_def split: option.splits)
    ultimately show ?thesis
      using s' by (simp add: cinv_def)
  next
    case S_lock
    let ?f = "\<lambda>w. if w = W_wait then W_wake else w"
    from S_lock step have free: "lock_owner s = None"
      and s': "s' = s\<lparr>wld := emit [Mutex_lock, Cond_broadcast, Mutex_unlock] (wld s),
                     workers := map ?f (workers s), caller := S_join 0\<rparr>"
      by (auto simp: shutdown_step_def split: option.splits)
    have "lock_ok s'"
      using free s' by (simp add: lock_ok_def)
    moreover have "held_ok (heap (wld s)) as (map ?f (workers s))"
      using held by (subst held_ok_map) simp_all
    with wf s' have "heap_ok s'"
      by (intro heap_okI [of _ as]) (simp_all add: emit_def)
    moreover have "pool_ok s'"
      using pool s' S_lock by (simp add: pool_ok_def split: option.splits)
    moreover have "shut_ok_at (caller s') s'"
      using shut s' S_lock by simp
    ultimately show ?thesis
      by (simp add: cinv_def)
  next
    case (S_join k)
    with shut have flag: "keep_running (pool s) = 0"
      and all: "\<forall>i < length (workers s). workers s ! i \<noteq> W_wait \<and> (i < k \<longrightarrow> workers s ! i = W_exit)"
      by simp_all
    from pool S_join obtain ts where ts: "threads (pool s) = Some ts"
      and len: "nat (num_threads (pool s)) = length (workers s)"
      by (auto simp: pool_ok_def split: option.splits)
    show ?thesis
    proof (cases "int k < num_threads (pool s)")
      case True
      with step S_join ts obtain h where at: "workers s ! k = W_exit"
        and s': "s' = s\<lparr>wld := emit [Thread_join (Thread h)] (wld s), caller := S_join (Suc k)\<rparr>"
        by (auto simp: shutdown_step_def split: if_splits platform_thread_t.splits)
      have "lock_ok s'"
        using lock s' by (simp add: lock_ok_def split: option.splits)
      moreover have "heap_ok s'"
        using wf held s' by (intro heap_okI [of _ as]) (simp_all add: emit_def)
      moreover have "pool_ok s'"
        using pool s' S_join by (simp add: pool_ok_def split: option.splits)
      moreover have "shut_ok_at (caller s') s'"
        using all at flag s' by (auto simp: less_Suc_eq)
      ultimately show ?thesis
        by (simp add: cinv_def)
    next
      case False
      with step S_join have s': "s' = s\<lparr>caller := S_cleanup\<rparr>"
        by (simp add: shutdown_step_def)
      from False len have "length (workers s) \<le> k"
        by linarith
      with all have "\<forall>i < length (workers s). workers s ! i = W_exit"
        by auto
      with flag s' have "shut_ok_at (caller s') s'"
        by simp
      moreover have "lock_ok s'"
        using lock s' by (simp add: lock_ok_def split: option.splits)
      moreover have "heap_ok s'"
        using wf held s' by (intro heap_okI [of _ as]) simp_all
      moreover have "pool_ok s'"
        using present s' by (simp add: pool_ok_def)
      ultimately show ?thesis
        by (simp add: cinv_def)
    qed
  next
    case S_cleanup
    with shut have flag: "keep_running (pool s) = 0"
      and all: "\<forall>i < length (workers s). workers s ! i = W_exit"
      by simp_all
    from S_cleanup step obtain q w where d: "queue_destroy (queue (pool s)) (wld s) = Inr (q, w)"
      and s': "s' = s\<lparr>pool := (pool s)\<lparr>threads := None, num_threads := 0, queue := q\<rparr>, wld := w,
                     caller := S_done\<rparr>"
      by (auto simp: shutdown_step_def split: sum.splits)
    from queue_destroy_trace [OF d] have "queue_wf (heap w) q []"
      by (simp add: queue_wf_def)
    moreover from all have "held_ok (heap w) [] (workers s)"
      by (rule held_ok_all_exit)
    ultimately have "heap_ok s'"
      using s' by (intro heap_okI [of _ "[]"]) simp_all
    moreover have "lock_ok s'"
    proof (cases "lock_owner s")
      case None
      with s' show ?thesis by (simp add: lock_ok_def)
    next
      case (Some j)
      with lock all show ?thesis by (auto simp: lock_ok_def)
    qed
    moreover have "pool_ok s'"
      using present s' by (simp add: pool_ok_def)
    moreover have "shut_ok_at (caller s') s'"
      using flag all s' by simp
    ultimately show ?thesis
      by (simp add: cinv_def)
  next
    case S_done
    with step show ?thesis
      by (simp add: shutdown_step_def)
  qed
qed

lemma step_cinv: "step x s = Some s' \<Longrightarrow> cinv s \<Longrightarrow> cinv s'"
  by (cases x) (auto intro: worker_step_cinv wake_step_cinv submit_step_cinv shutdown_step_cinv)

lemma run_cinv: "run xs s = Some s' \<Longrightarrow> cinv s \<Longrightarrow> cinv s'"
proof (induction xs arbitrary: s)
  case Nil
  then show ?case by simp
next
  case (Cons x xs)
  then show ?case by (auto split: option.splits dest: step_cinv)
qed

lemma create_loop_length: "length (fst (create_loop i n cr ts tr)) = length ts"
proof (induction i n cr ts tr rule: create_loop.induct)
  case (1 i n cr ts tr)
  show ?case
  proof (cases "i < n")
    case True
    with "1" show ?thesis
      by (subst create_loop.simps) (auto split: option.splits)
  next
    case False
    then show ?thesis
      by (subst create_loop.simps) simp
  qed
qed

lemma create_loop_started:
  assumes "\<forall>j. nat i \<le> j \<and> j < nat n \<longrightarrow> cr j \<noteq> None" and "0 \<le> i"
    and "length ts = nat n" and "\<forall>j < nat i. j < length ts \<longrightarrow> ts ! j \<noteq> Uninit"
  shows "\<forall>j < length ts. fst (create_loop i n cr ts tr) ! j \<noteq> Uninit"
  using assms
proof (induction i n cr ts tr rule: create_loop.induct)
  case (1 i n cr ts tr)
  show ?case
  proof (cases "i < n")
    case False
    with "1.prems" have "nat n \<le> nat i"
      by simp
    with "1.prems" False show ?thesis
      by (subst create_loop.simps) auto
  next
    case True
    with "1.prems" obtain h where h: "cr (nat i) = Some h"
      by (cases "cr (nat i)") auto
    let ?ts = "ts[nat i := Thread h]"
    have a: "\<forall>j. nat (i + 1) \<le> j \<and> j < nat n \<longrightarrow> cr j \<noteq> None"
      using "1.prems"(1,2) by auto
    have b: "0 \<le> i + 1"
      using "1.prems"(2) by simp
    have c: "length ?ts = nat n"
      using "1.prems"(3) by simp
    have d: "\<forall>j < nat (i + 1). j < length ?ts \<longrightarrow> ?ts ! j \<noteq> Uninit"
    proof (intro allI impI)
      fix j assume "j < nat (i + 1)" and "j < length ?ts"
      with "1.prems"(2,4) show "?ts ! j \<noteq> Uninit"
        by (cases "j = nat i") (auto simp: nat_add_distrib)
    qed
    from "1.IH"(2) [OF True h a b c d]
    have "\<forall>j < length ?ts. fst (create_loop (i + 1) n cr ?ts (tr @ [Thread_create (nat i)])) ! j \<noteq> Uninit" .
    with True h show ?thesis
      by (subst create_loop.simps) simp
  qed
qed

lemma init_cinv:
  assumes init: "thread_pool_init (Some p0) n True cr w0 = (Some p, w)"
    and started: "\<forall>i < nat n. cr i \<noteq> None"
  shows "cinv (pool_start p w)"
proof -
  let ?ts0 = "replicate (nat n) Uninit"
  obtain ts tr where cl: "create_loop 0 n cr ?ts0 (trace (snd (queue_init w0))) = (ts, tr)"
    by (cases "create_loop 0 n cr ?ts0 (trace (snd (queue_init w0)))")
  from init cl have p: "p = p0\<lparr>num_threads := n, threads := Some ts,
      queue := \<lparr>front = None, rear = None\<rparr>, keep_running := 1\<rparr>"
    by (auto simp: thread_pool_init_def queue_init_def Let_def)
  from create_loop_length [of 0 n cr ?ts0 "trace (snd (queue_init w0))"] cl
  have len: "length ts = nat n"
    by simp
  from create_loop_started [of 0 n cr ?ts0 "trace (snd (queue_init w0))"] started cl
  have all: "\<forall>j < length ts. ts ! j \<noteq> Uninit"
    by (simp add: len)
  have ws: "workers (pool_start p w) = map (\<lambda>t. case t of Uninit \<Rightarrow> W_absent | Thread h \<Rightarrow> W_top) ts"
    by (simp add: pool_start_def p)
  have top: "workers (pool_start p w) ! i = W_top" if "i < length ts" for i
    using that all ws by (auto split: platform_thread_t.splits)
  have "lock_ok (pool_start p w)"
    by (simp add: lock_ok_def pool_start_def)
  moreover have "queue_wf (heap (wld (pool_start p w))) (queue (pool (pool_start p w))) []"
    by (simp add: pool_start_def p queue_wf_def)
  moreover have "held_ok (heap (wld (pool_start p w))) [] (workers (pool_start p w))"
    using top ws by (simp add: held_ok_def)
  moreover have "pool_ok (pool_start p w)"
    using top ws len all by (simp add: pool_ok_def) (simp add: pool_start_def p)
  moreover have "shut_ok_at (caller (pool_start p w)) (pool_start p w)"
    by (simp add: pool_start_def)
  ultimately show ?thesis
    unfolding cinv_def heap_ok_def by blast
qed

lemma begun_flag: "cinv s \<Longrightarrow> caller s \<noteq> S_idle \<Longrightarrow> keep_running (pool s) = 0"
  by (cases "caller s") (simp_all add: cinv_def)

lemma step_measures:
  assumes "cinv s" and "caller s \<noteq> S_idle" and "step x s = Some s'"
  shows "caller s' \<noteq> S_idle \<and>
         (if is_Submit x then rank s' = rank s else rank s' < rank s) \<and>
         invoked s' + may_invoke s' \<le> invoked s + may_invoke s"
proof (cases x)
  case (Work i)
  with assms worker_step_measures [of i s s'] begun_flag [of s] show ?thesis
    by simp
next
  case (Wake i)
  with assms wake_step_measures [of i s s'] show ?thesis
    by simp
next
  case (Submit f a m)
  with assms submit_step_measures [of f a m s s'] show ?thesis
    by simp
next
  case Shut
  with assms shutdown_step_measures [of s s'] show ?thesis
    by simp
qed

lemma run_measures:
  "cinv s \<Longrightarrow> caller s \<noteq> S_idle \<Longrightarrow> run xs s = Some s' \<Longrightarrow>
     caller s' \<noteq> S_idle \<and>
     length (filter (\<lambda>x. \<not> is_Submit x) xs) + rank s' \<le> rank s \<and>
     invoked s' + may_invoke s' \<le> invoked s + may_invoke s"
proof (induction xs arbitrary: s)
  case Nil
  then show ?case by simp
next
  case (Cons x xs)
  from Cons.prems(3) obtain s1 where st: "step x s = Some s1" and rest: "run xs s1 = Some s'"
    by (auto split: option.splits)
  from step_measures [OF Cons.prems(1,2) st]
  have c1: "caller s1 \<noteq> S_idle"
    and r1: "if is_Submit x then rank s1 = rank s else rank s1 < rank s"
    and i1: "invoked s1 + may_invoke s1 \<le> invoked s + may_invoke s"
    by simp_all
  from step_cinv [OF st Cons.prems(1)] have "cinv s1" .
  from Cons.IH [OF this c1 rest]
  have "caller s' \<noteq> S_idle"
    and "length (filter (\<lambda>x. \<not> is_Submit x) xs) + rank s' \<le> rank s1"
    and "invoked s' + may_invoke s' \<le> invoked s1 + may_invoke s1"
    by simp_all
  with r1 i1 show ?case
    by (cases "is_Submit x") simp_all
qed

lemma worker_enabled:
  assumes ok: "cinv s" and i: "i < length (workers s)"
    and live: "workers s ! i \<noteq> W_exit" "workers s ! i \<noteq> W_wait"
    and lock: "lock_owner s = None \<or> holds_lock (workers s ! i)"
  shows "worker_step i s \<noteq> None"
proof -
  from ok have heap: "heap_ok s" and pool: "pool_ok s"
    by (simp_all add: cinv_def)
  from heap obtain as where wf: "queue_wf (heap (wld s)) (queue (pool s)) as"
    and held: "held_ok (heap (wld s)) as (workers s)"
    unfolding heap_ok_def by blast
  from pool i have present: "workers s ! i \<noteq> W_absent"
    by (simp add: pool_ok_def)
  have "worker_at (workers s ! i) i s \<noteq> None"
  proof (cases "workers s ! i")
    case W_pop
    have "\<exists>r q. queue_pop (queue (pool s)) (heap (wld s)) = Inr (r, q)"
    proof (cases as)
      case Nil
      with wf have "front (queue (pool s)) = None"
        by (simp add: queue_wf_def)
      then show ?thesis
        by (simp add: queue_pop_empty)
    next
      case (Cons a as')
      with wf queue_pop_wf [of "heap (wld s)" "queue (pool s)" a as'] show ?thesis
        by blast
    qed
    with W_pop show ?thesis
      by auto
  next
    case (W_run a)
    with held i have "a |\<in>| fmdom (heap (wld s))"
      by (simp add: held_ok_live)
    with W_run show ?thesis
      by (auto simp: fmlookup_dom_iff)
  next
    case (W_body a)
    with held i have "a |\<in>| fmdom (heap (wld s))"
      by (simp add: held_ok_live)
    with W_body show ?thesis
      by simp
  qed (use live lock present in auto)
  with i show ?thesis
    by (simp add: worker_step_def)
qed

lemma some_worker_enabled:
  assumes ok: "cinv s" and i: "i < length (workers s)"
    and live: "workers s ! i \<noteq> W_exit" "workers s ! i \<noteq> W_wait"
  shows "\<exists>j < length (workers s). worker_step j s \<noteq> None"
proof (cases "lock_owner s")
  case None
  with worker_enabled [OF ok i live] i show ?thesis
    by blast
next
  case (Some j)
  with ok have j: "j < length (workers s)" and h: "holds_lock (workers s ! j)"
    by (simp_all add: cinv_def lock_ok_def)
  from h have "workers s ! j \<noteq> W_exit" and "workers s ! j \<noteq> W_wait"
    by auto
  from worker_enabled [OF ok j this] h j show ?thesis
    by blast
qed

lemma progress:
  assumes ok: "cinv s" and begun: "caller s \<noteq> S_idle" and unfinished: "caller s \<noteq> S_done"
  shows "shutdown_step s \<noteq> None \<or> (\<exists>i < length (workers s). worker_step i s \<noteq> None)"
proof (cases "caller s")
  case S_lock
  show ?thesis
  proof (cases "lock_owner s")
    case None
    with S_lock show ?thesis
      by (simp add: shutdown_step_def)
  next
    case (Some j)
    with ok have j: "j < length (workers s)" and h: "holds_lock (workers s ! j)"
      by (simp_all add: cinv_def lock_ok_def)
    from h have "workers s ! j \<noteq> W_exit" and "workers s ! j \<noteq> W_wait"
      by auto
    from worker_enabled [OF ok j this] h j show ?thesis
      by blast
  qed
next
  case (S_join k)
  with ok obtain ts where ts: "threads (pool s) = Some ts" and len: "length ts = length (workers s)"
    and n: "nat (num_threads (pool s)) = length (workers s)"
    and slots: "\<forall>i < length ts. ts ! i \<noteq> Uninit"
    by (auto simp: cinv_def pool_ok_def split: option.splits)
  from ok S_join have nowait: "\<forall>i < length (workers s). workers s ! i \<noteq> W_wait"
    by (simp add: cinv_def)
  show ?thesis
  proof (cases "int k < num_threads (pool s)")
    case False
    with S_join show ?thesis
      by (simp add: shutdown_step_def)
  next
    case True
    with n have k: "k < length (workers s)"
      by linarith
    with slots len obtain h where h: "ts ! k = Thread h"
      by (cases "ts ! k") auto
    show ?thesis
    proof (cases "workers s ! k = W_exit")
      case True
      with S_join \<open>int k < num_threads (pool s)\<close> ts len k h show ?thesis
        by (simp add: shutdown_step_def)
    next
      case False
      with some_worker_enabled [OF ok k] nowait k show ?thesis
        by blast
    qed
  qed
next
  case S_cleanup
  from ok obtain as where "queue_wf (heap (wld s)) (queue (pool s)) as"
    by (auto simp: cinv_def heap_ok_def)
  then have "queue_destroy_loop (front (queue (pool s))) (heap (wld s))
               = Inr (fmfilter (\<lambda>x. x \<notin> set as) (heap (wld s)))"
    by (simp add: queue_wf_def queue_destroy_loop_chain)
  with S_cleanup show ?thesis
    by (simp add: shutdown_step_def queue_destroy_def)
qed (use begun unfinished in simp_all)

lemma run_after_done:
  "cinv s \<Longrightarrow> caller s = S_done \<Longrightarrow> run xs s = Some s' \<Longrightarrow>
     filter is_Invoke (trace (wld s')) = filter is_Invoke (trace (wld s))"
proof (induction xs arbitrary: s)
  case Nil
  then show ?case by simp
next
  case (Cons x xs)
  from Cons.prems(3) obtain s1 where st: "step x s = Some s1" and rest: "run xs s1 = Some s'"
    by (auto split: option.splits)
  from Cons.prems(1,2) have all: "\<forall>i < length (workers s). workers s ! i = W_exit"
    by (simp add: cinv_def)
  have "is_Submit x"
  proof (cases x)
    case (Work i)
    with st all show ?thesis
      by (auto simp: worker_step_def split: if_splits)
  next
    case (Wake i)
    with st all show ?thesis
      by (auto simp: wake_step_def split: if_splits)
  next
    case Shut
    with st Cons.prems(2) show ?thesis
      by (simp add: shutdown_step_def)
  qed simp
  then obtain f a m where x: "x = Submit f a m"
    by (cases x) simp_all
  with st submit_stepD [of f a m s s1] obtain q w
    where push: "queue_push (queue (pool s)) f a m (wld s) = Inr (q, w)"
      and s1: "s1 = s\<lparr>pool := (pool s)\<lparr>queue := q\<rparr>, wld := w\<rparr>"
    by auto
  from queue_push_trace [OF push] s1
  have "filter is_Invoke (trace (wld s1)) = filter is_Invoke (trace (wld s))"
    by simp
  moreover from s1 Cons.prems(2) have "caller s1 = S_done"
    by simp
  moreover from step_cinv [OF st Cons.prems(1)] have "cinv s1" .
  ultimately show ?case
    using Cons.IH [of s1] rest by simp
qed

lemma may_invoke_le: "may_invoke s \<le> length (workers s)"
proof -
  have "sum_list (map pending ws) \<le> length ws" for ws
  proof (induction ws)
    case Nil
    then show ?case by simp
  next
    case (Cons w ws)
    then show ?case by (cases w) simp_all
  qed
  then show ?thesis
    by (simp add: may_invoke_def)
qed

lemma rank_le: "rank s \<le> 7 * length (workers s) + 4"
proof -
  have "sum_list (map wrank ws) \<le> 6 * length ws" for ws
  proof (induction ws)
    case Nil
    then show ?case by simp
  next
    case (Cons w ws)
    then show ?case by (cases w) simp_all
  qed
  from this [of "workers s"] show ?thesis
    by (cases "caller s") (simp_all add: rank_def)
qed

lemma run_append: "run (xs @ ys) s = (case run xs s of None \<Rightarrow> None | Some s' \<Rightarrow> run ys s')"
  by (induction xs arbitrary: s) (auto split: option.splits)

lemma cinv_null_inv: "cinv s \<Longrightarrow> queue_null_inv (queue (pool s))"
  unfolding cinv_def heap_ok_def by (blast intro: queue_wf_null_inv)

lemma reachable_null_inv:
  assumes "thread_pool_init (Some p0) n True cr w0 = (Some p, w)"
    and "\<forall>i < nat n. cr i \<noteq> None"
    and "run xs (pool_start p w) = Some s"
  shows "queue_null_inv (queue (pool s))"
  using run_cinv [OF assms(3) init_cinv [OF assms(1,2)]] by (rule cinv_null_inv)

text \<open>
  The steps of the caller of shutdown, taken with every worker returned and nobody else
  moving, do what \<open>thread_pool_shutdown\<close> does as one function.
\<close>

lemma run_joins:
  assumes "threads (pool s) = Some ts" and "length ts = length (workers s)"
    and "nat (num_threads (pool s)) = length ts"
    and "\<forall>i < length ts. ts ! i \<noteq> Uninit"
    and "\<forall>i < length (workers s). workers s ! i = W_exit"
    and "caller s = S_join i" and "i \<le> length ts"
  shows "run (replicate (length ts - i) Shut) s
           = Some (s\<lparr>wld := emit (map Thread_join (drop i ts)) (wld s), caller := S_join (length ts)\<rparr>)"
  using assms
proof (induction "length ts - i" arbitrary: s i)
  case 0
  then have "i = length ts"
    by simp
  with 0 show ?case
    by (simp add: emit_def)
next
  case (Suc k)
  then have i: "i < length ts"
    by simp
  with Suc.prems obtain h where h: "ts ! i = Thread h"
    by (cases "ts ! i") auto
  let ?s1 = "s\<lparr>wld := emit [Thread_join (Thread h)] (wld s), caller := S_join (Suc i)\<rparr>"
  from i Suc.prems have lt: "int i < num_threads (pool s)"
    by linarith
  with i h Suc.prems have st: "shutdown_step s = Some ?s1"
    by (simp add: shutdown_step_def)
  have k: "k = length ts - Suc i"
    using Suc.hyps(2) by simp
  from Suc.hyps(1) [OF k, of ?s1] Suc.prems i
  have "run (replicate (length ts - Suc i) Shut) ?s1
          = Some (?s1\<lparr>wld := emit (map Thread_join (drop (Suc i) ts)) (wld ?s1),
                       caller := S_join (length ts)\<rparr>)"
    by simp
  moreover have "length ts - i = Suc (length ts - Suc i)"
    using i by simp
  moreover have "drop i ts = Thread h # drop (Suc i) ts"
    using i h by (simp add: Cons_nth_drop_Suc [symmetric])
  ultimately show ?case
    using st by (simp add: emit_def)
qed

lemma shutdown_steps_agree:
  assumes ts: "threads (pool s) = Some ts" and len: "length ts = length (workers s)"
    and n: "nat (num_threads (pool s)) = length ts"
    and slots: "\<forall>i < length ts. ts ! i \<noteq> Uninit"
    and exited: "\<forall>i < length (workers s). workers s ! i = W_exit"
    and idle: "caller s = S_idle" and free: "lock_owner s = None"
    and seq: "thread_pool_shutdown (Some (pool s)) (wld s) = Inr (Some p', w')"
  shows "run (Shut # Shut # replicate (length ts) Shut @ [Shut, Shut]) s
           = Some (s\<lparr>pool := p', wld := w', caller := S_done\<rparr>)"
proof -
  let ?f = "\<lambda>w. if w = W_wait then W_wake else w"
  let ?s1 = "s\<lparr>pool := (pool s)\<lparr>keep_running := 0\<rparr>, caller := S_lock\<rparr>"
  let ?s2 = "?s1\<lparr>wld := emit [Mutex_lock, Cond_broadcast, Mutex_unlock] (wld s), caller := S_join 0\<rparr>"
  let ?s3 = "?s2\<lparr>wld := emit (map Thread_join ts) (wld ?s2), caller := S_join (length ts)\<rparr>"
  let ?s4 = "?s3\<lparr>caller := S_cleanup\<rparr>"
  have same: "map ?f (workers s) = workers s"
    using exited by (simp add: list_eq_iff_nth_eq)
  have 1: "shutdown_step s = Some ?s1"
    using idle ts by (simp add: shutdown_step_def)
  have 2: "shutdown_step ?s1 = Some ?s2"
    using free same by (simp add: shutdown_step_def)
  have 3: "run (replicate (length ts) Shut) ?s2 = Some ?s3"
    using run_joins [of ?s2 ts 0] ts len n slots exited by simp
  have "\<not> int (length ts) < num_threads (pool s)"
    using n by linarith
  then have 4: "shutdown_step ?s3 = Some ?s4"
    by (simp add: shutdown_step_def)
  have j: "join_loop 0 (num_threads (pool s)) ts (trace (wld ?s2))
             = Inr (trace (wld ?s2) @ map Thread_join ts)"
    using join_loop_all [of 0 "num_threads (pool s)" ts "trace (wld ?s2)"] n by simp
  from seq ts j have 5: "shutdown_step ?s4 = Some (s\<lparr>pool := p', wld := w', caller := S_done\<rparr>)"
    by (auto simp: thread_pool_shutdown_def shutdown_step_def Let_def emit_def split: sum.splits)
  from 1 2 3 4 5 show ?thesis
    by (simp add: run_append)
qed

section \<open>The claims\<close>

text \<open>
  Claim C1 (FIFO dispatch).  Tasks \<open>ts\<close> are pushed onto a freshly initialised queue, the
  \<open>i\<close>-th one into the node \<open>ms ! i\<close> that \<open>malloc\<close> returned for it (live nodes are never
  handed out again, so the nodes are distinct and were not live before).  Then as many pops
  as there were pushes all succeed, the \<open>i\<close>-th pop returns a node holding the function and
  the argument of the \<open>i\<close>-th push, and one more pop finds the queue empty.
\<close>

theorem queue_fifo:
  assumes "length ms = length ts" and "distinct ms"
    and "\<forall>m \<in> set ms. m |\<notin>| fmdom (heap w)"
  shows "\<exists>q1 w1 rs q2.
           push_all (map2 with_node ts ms) (fst (queue_init w)) (snd (queue_init w)) = Inr (q1, w1) \<and>
           pop_n (length ts) q1 (heap w1) = Inr (rs, q2) \<and>
           length rs = length ts \<and>
           (\<forall>i < length ts. task_of (heap w1) (rs ! i) = Some (ts ! i)) \<and>
           queue_pop q2 (heap w1) = Inr (None, q2)"
proof -
  let ?qi = "fst (queue_init w)" and ?wi = "snd (queue_init w)"
  have h0: "heap ?wi = heap w"
    by (simp add: queue_init_def emit_def)
  have wf0: "queue_wf (heap ?wi) ?qi []"
    by (rule queue_wf_init)
  from assms(3) h0 have fresh: "\<forall>m \<in> set ms. m |\<notin>| fmdom (heap ?wi)"
    by simp
  from push_all_wf [OF wf0 assms(1) assms(2) fresh]
  obtain q1 w1 where push: "push_all (map2 with_node ts ms) ?qi ?wi = Inr (q1, w1)"
    and wf1: "queue_wf (heap w1) q1 ([] @ ms)"
    and tasks: "map (\<lambda>m. task_of (heap w1) (Some m)) ms = map Some ts"
    by blast
  from wf1 have "queue_wf (heap w1) q1 (ms @ [])"
    by simp
  from pop_n_wf [OF this]
  obtain q2 where pop: "pop_n (length ms) q1 (heap w1) = Inr (map Some ms, q2)"
    and wf2: "queue_wf (heap w1) q2 []"
    by blast
  from wf2 have "front q2 = None"
    by (simp add: queue_wf_def)
  then have last: "queue_pop q2 (heap w1) = Inr (None, q2)"
    by (rule queue_pop_empty)
  have "task_of (heap w1) (map Some ms ! i) = Some (ts ! i)" if "i < length ts" for i
  proof -
    from that assms(1) have "map (\<lambda>m. task_of (heap w1) (Some m)) ms ! i = map Some ts ! i"
      by (simp only: tasks)
    with that assms(1) show ?thesis
      by simp
  qed
  with push pop last assms(1) show ?thesis
    by simp
qed

theorem queue_fifo_witness:
  "length [1, 0 :: addr] = length [(7, 70), (8, 80) :: task_func_t \<times> void_ptr] \<and>
   distinct [1, 0 :: addr] \<and>
   1 |\<notin>| fmdom (heap \<lparr>heap = fmempty, trace = []\<rparr>) \<and>
   0 |\<notin>| fmdom (heap \<lparr>heap = fmempty, trace = []\<rparr>) \<and>
   (\<exists>q1 w1 rs q2.
      push_all (map2 with_node [(7, 70), (8, 80)] [1, 0])
        (fst (queue_init \<lparr>heap = fmempty, trace = []\<rparr>))
        (snd (queue_init \<lparr>heap = fmempty, trace = []\<rparr>)) = Inr (q1, w1) \<and>
      pop_n 2 q1 (heap w1) = Inr (rs, q2) \<and>
      task_of (heap w1) (rs ! 0) = Some (7, 70) \<and>
      task_of (heap w1) (rs ! 1) = Some (8, 80))"
proof -
  let ?ms = "[1, 0 :: addr]" and ?ts = "[(7, 70), (8, 80) :: task_func_t \<times> void_ptr]"
  let ?w = "\<lparr>heap = fmempty, trace = []\<rparr>"
  have h1: "length ?ms = length ?ts" and h2: "distinct ?ms"
    and h3: "\<forall>m \<in> set ?ms. m |\<notin>| fmdom (heap ?w)"
    by simp_all
  have len: "length ?ts = 2"
    by simp
  from queue_fifo [OF h1 h2 h3]
  obtain q1 w1 rs q2 where
    push: "push_all (map2 with_node ?ts ?ms) (fst (queue_init ?w)) (snd (queue_init ?w))
             = Inr (q1, w1)"
    and pop: "pop_n (length ?ts) q1 (heap w1) = Inr (rs, q2)"
    and all: "\<forall>i < length ?ts. task_of (heap w1) (rs ! i) = Some (?ts ! i)"
    by blast
  from all have t0: "task_of (heap w1) (rs ! 0) = Some (7, 70)"
    and t1: "task_of (heap w1) (rs ! 1) = Some (8, 80)"
    by simp_all
  note pop2 = pop [unfolded len]
  from push pop2 t0 t1 have "\<exists>q1 w1 rs q2.
      push_all (map2 with_node ?ts ?ms) (fst (queue_init ?w)) (snd (queue_init ?w)) = Inr (q1, w1) \<and>
      pop_n 2 q1 (heap w1) = Inr (rs, q2) \<and>
      task_of (heap w1) (rs ! 0) = Some (7, 70) \<and>
      task_of (heap w1) (rs ! 1) = Some (8, 80)"
    by blast
  moreover have "1 |\<notin>| fmdom (heap ?w)" and "0 |\<notin>| fmdom (heap ?w)"
    by simp_all
  ultimately show ?thesis
    using h1 h2 by (intro conjI)
qed

text \<open>
  Claim C2 (queue null-invariant).  \<open>front\<close> is null exactly when \<open>rear\<close> is: this holds of
  the queue that \<open>queue_init\<close> leaves, and whenever it holds of a queue before
  \<open>queue_push\<close>, \<open>queue_pop\<close> or \<open>queue_destroy\<close>, it holds of the queue the operation leaves.
  (The operations leave no queue only where C gives the run no meaning; on a well-formed
  queue they always return, see \<open>queue_push_wf\<close>, \<open>queue_pop_wf\<close> and
  \<open>queue_destroy_loop_chain\<close>.  With the threads running, the predicate holds in every
  state they reach, see \<open>reachable_null_inv\<close>.)
\<close>

theorem queue_null_inv_preserved:
  assumes "queue_null_inv q"
  shows "queue_null_inv (fst (queue_init w0)) \<and>
         (\<forall>q' w'. queue_push q f a m w = Inr (q', w') \<longrightarrow> queue_null_inv q') \<and>
         (\<forall>r q'. queue_pop q h = Inr (r, q') \<longrightarrow> queue_null_inv q') \<and>
         (\<forall>q' w'. queue_destroy q w = Inr (q', w') \<longrightarrow> queue_null_inv q')"
proof -
  have "queue_null_inv (fst (queue_init w0))"
    by (simp add: queue_init_def queue_null_inv_def)
  moreover have "queue_null_inv q'" if "queue_push q f a m w = Inr (q', w')" for q' w'
    using that assms
    by (auto simp: queue_push_def queue_null_inv_def Let_def split: option.splits)
  moreover have "queue_null_inv q'" if "queue_pop q h = Inr (r, q')" for r q'
    using that assms
    by (auto simp: queue_pop_def queue_null_inv_def Let_def split: option.splits if_splits)
  moreover have "queue_null_inv q'" if "queue_destroy q w = Inr (q', w')" for q' w'
    using that
    by (auto simp: queue_destroy_def queue_null_inv_def split: sum.splits)
  ultimately show ?thesis
    by blast
qed

theorem queue_null_inv_preserved_witness:
  "queue_null_inv \<lparr>front = Some 0, rear = Some 0\<rparr> \<and>
   queue_null_inv (fst (queue_init \<lparr>heap = fmempty, trace = []\<rparr>)) \<and>
   queue_push \<lparr>front = Some 0, rear = Some 0\<rparr> 8 80 (Some 1)
       \<lparr>heap = fmupd 0 \<lparr>func = 7, arg = 70, nxt = None\<rparr> fmempty, trace = []\<rparr>
     = Inr (\<lparr>front = Some 0, rear = Some 1\<rparr>,
            \<lparr>heap = fmupd 0 \<lparr>func = 7, arg = 70, nxt = Some 1\<rparr>
                     (fmupd 1 \<lparr>func = 8, arg = 80, nxt = None\<rparr>
                        (fmupd 0 \<lparr>func = 7, arg = 70, nxt = None\<rparr> fmempty)),
               trace = [Mutex_lock, Cond_signal, Mutex_unlock]\<rparr>) \<and>
   queue_null_inv \<lparr>front = Some 0, rear = Some 1\<rparr> \<and>
   queue_pop \<lparr>front = Some 0, rear = Some 0\<rparr> (fmupd 0 \<lparr>func = 7, arg = 70, nxt = None\<rparr> fmempty)
     = Inr (Some 0, \<lparr>front = None, rear = None\<rparr>) \<and>
   queue_null_inv \<lparr>front = None, rear = None\<rparr> \<and>
   (\<exists>w'. queue_destroy \<lparr>front = Some 0, rear = Some 0\<rparr>
       \<lparr>heap = fmupd 0 \<lparr>func = 7, arg = 70, nxt = None\<rparr> fmempty, trace = []\<rparr>
     = Inr (\<lparr>front = None, rear = None\<rparr>, w'))"
proof -
  let ?q = "\<lparr>front = Some 0, rear = Some 0\<rparr>"
  let ?h = "fmupd 0 \<lparr>func = 7, arg = 70, nxt = None\<rparr> fmempty"
  let ?w = "\<lparr>heap = ?h, trace = []\<rparr>"
  have inv: "queue_null_inv ?q"
    by (simp add: queue_null_inv_def)
  have push: "queue_push ?q 8 80 (Some 1) ?w
     = Inr (\<lparr>front = Some 0, rear = Some 1\<rparr>,
            \<lparr>heap = fmupd 0 \<lparr>func = 7, arg = 70, nxt = Some 1\<rparr>
                     (fmupd 1 \<lparr>func = 8, arg = 80, nxt = None\<rparr> ?h),
               trace = [Mutex_lock, Cond_signal, Mutex_unlock]\<rparr>)"
    by (simp add: queue_push_def emit_def)
  have pop: "queue_pop ?q ?h = Inr (Some 0, \<lparr>front = None, rear = None\<rparr>)"
    by (simp add: queue_pop_def)
  have destroy: "\<exists>w'. queue_destroy ?q ?w = Inr (\<lparr>front = None, rear = None\<rparr>, w')"
    by (simp add: queue_destroy_def)
  from queue_null_inv_preserved [OF inv, of "\<lparr>heap = fmempty, trace = []\<rparr>" 8 80 "Some 1" ?w ?h]
    push pop
  have "queue_null_inv (fst (queue_init \<lparr>heap = fmempty, trace = []\<rparr>))"
    and "queue_null_inv \<lparr>front = Some 0, rear = Some 1\<rparr>"
    and "queue_null_inv \<lparr>front = None, rear = None\<rparr>"
    by blast+
  with inv push pop destroy show ?thesis
    by (intro conjI)
qed

text \<open>
  Claim C3 (degraded-capacity shutdown), evaluated where the code departs from it.  A pool
  is initialised with two threads and the second \<open>platform_thread_create\<close> fails: the slot
  \<open>threads[1]\<close> is never written.  \<open>thread_pool_shutdown\<close> then joins \<open>num_threads = 2\<close>
  handles, the second being the unwritten slot, not the one thread that had started.  (It
  joins every slot of any pool, see \<open>shutdown_joins_all_slots\<close>.)
\<close>

theorem degraded_pool_shutdown_joins_every_slot:
  "thread_pool_init
       (Some \<lparr>threads = None, num_threads = 0, queue = \<lparr>front = None, rear = None\<rparr>,
               keep_running = 0\<rparr>)
       2 True (\<lambda>i. if i = 0 then Some 100 else None) \<lparr>heap = fmempty, trace = []\<rparr>
     = (Some \<lparr>threads = Some [Thread 100, Uninit], num_threads = 2,
               queue = \<lparr>front = None, rear = None\<rparr>, keep_running = 1\<rparr>,
        \<lparr>heap = fmempty,
           trace = [Mutex_init, Cond_init, Thread_create 0, Thread_create 1,
                    Stderr ''Error creating thread 1\<newline>'']\<rparr>) \<and>
   thread_pool_shutdown
       (Some \<lparr>threads = Some [Thread 100, Uninit], num_threads = 2,
               queue = \<lparr>front = None, rear = None\<rparr>, keep_running = 1\<rparr>)
       \<lparr>heap = fmempty, trace = []\<rparr>
     = Inr (Some \<lparr>threads = None, num_threads = 0,
                   queue = \<lparr>front = None, rear = None\<rparr>, keep_running = 0\<rparr>,
            \<lparr>heap = fmempty,
               trace = [Mutex_lock, Cond_broadcast, Mutex_unlock,
                        Thread_join (Thread 100), Thread_join Uninit,
                        Mutex_destroy, Cond_destroy]\<rparr>)"
  by (simp add: thread_pool_init_def queue_init_def create_loop.simps show_nat.simps
      numeral_2_eq_2 thread_pool_shutdown_def join_loop.simps queue_destroy_def emit_def)

text \<open>
  Claim C4 (never run after shutdown begins), where the code departs from it.  One worker has
  passed the test at the top of its loop when the caller of shutdown clears the flag.  A task
  submitted after that, with the flag already false, is found by the worker when it takes
  the lock: the queue is not empty, so the inner loop does not look at the flag, and the
  worker pops the task and calls it.
\<close>

theorem late_task_is_run:
  "run [Work 0, Shut]
     (pool_start
        \<lparr>threads = Some [Thread 100], num_threads = 1,
           queue = \<lparr>front = None, rear = None\<rparr>, keep_running = 1\<rparr>
        \<lparr>heap = fmempty, trace = [Mutex_init, Cond_init, Thread_create 0]\<rparr>)
     = Some \<lparr>pool = \<lparr>threads = Some [Thread 100], num_threads = 1,
                      queue = \<lparr>front = None, rear = None\<rparr>, keep_running = 0\<rparr>,
             wld = \<lparr>heap = fmempty, trace = [Mutex_init, Cond_init, Thread_create 0]\<rparr>,
             lock_owner = None, workers = [W_lock], caller = S_lock\<rparr> \<and>
   run [Submit 7 70 (Some 0), Work 0, Work 0, Work 0, Work 0]
     \<lparr>pool = \<lparr>threads = Some [Thread 100], num_threads = 1,
                queue = \<lparr>front = None, rear = None\<rparr>, keep_running = 0\<rparr>,
       wld = \<lparr>heap = fmempty, trace = [Mutex_init, Cond_init, Thread_create 0]\<rparr>,
       lock_owner = None, workers = [W_lock], caller = S_lock\<rparr>
     = Some \<lparr>pool = \<lparr>threads = Some [Thread 100], num_threads = 1,
                      queue = \<lparr>front = None, rear = None\<rparr>, keep_running = 0\<rparr>,
             wld = \<lparr>heap = fmupd 0 \<lparr>func = 7, arg = 70, nxt = None\<rparr> fmempty,
                    trace = [Mutex_init, Cond_init, Thread_create 0,
                             Mutex_lock, Cond_signal, Mutex_unlock,
                             Mutex_lock, Mutex_unlock, Invoke 7 70]\<rparr>,
             lock_owner = None, workers = [W_body 0], caller = S_lock\<rparr>"
  by (simp add: pool_start_def worker_step_def shutdown_step_def submit_step_def
      thread_pool_add_task_def queue_push_def queue_pop_def emit_def)

text \<open>
  Claim C4 as the code has it.  The pool is initialised with every worker created and the
  threads run in any order, a lock-protected section or an access to the flag being one
  step.  In any state \<open>s\<close> reached after shutdown has begun, and along any continuation
  \<open>ys\<close> from it:
  \<^item> a worker that stands at its loop-top test, or at the test that follows its wait,
    returns in its next step and neither pops nor calls a task;
  \<^item> the task bodies that begin number at most the workers that had passed their loop-top
    test and not yet called their task (\<open>may_invoke s\<close>), so at most one per worker;
  \<^item> shutdown returns, whatever is queued: the workers and the caller take at most
    \<open>rank s\<close> steps between them, no more than seven per worker and four, and as long as
    the caller has not returned, the caller or some worker can take a step;
  \<^item> once shutdown has returned no task body begins.
\<close>

theorem shutdown_begun_bounds:
  assumes init: "thread_pool_init (Some p0) n True cr w0 = (Some p, w)"
    and started: "\<forall>i < nat n. cr i \<noteq> None"
    and reach: "run xs (pool_start p w) = Some s"
    and begun: "caller s \<noteq> S_idle"
    and more: "run ys s = Some s'"
  shows "(\<forall>i < length (workers s). workers s ! i = W_top \<or> workers s ! i = W_check \<longrightarrow>
            (\<exists>t. worker_step i s = Some t \<and> workers t = (workers s)[i := W_exit] \<and>
                 pool t = pool s \<and> heap (wld t) = heap (wld s) \<and> invoked t = invoked s)) \<and>
         invoked s' \<le> invoked s + may_invoke s \<and>
         may_invoke s \<le> length (workers s) \<and>
         length (filter (\<lambda>x. \<not> is_Submit x) ys) \<le> rank s \<and>
         rank s \<le> 7 * length (workers s) + 4 \<and>
         (caller s' \<noteq> S_done \<longrightarrow>
            shutdown_step s' \<noteq> None \<or> (\<exists>i < length (workers s'). worker_step i s' \<noteq> None)) \<and>
         (caller s = S_done \<longrightarrow>
            filter is_Invoke (trace (wld s')) = filter is_Invoke (trace (wld s)))"
proof -
  from init_cinv [OF init started] have "cinv (pool_start p w)" .
  with reach have inv: "cinv s"
    by (rule run_cinv)
  with more have inv': "cinv s'"
    by (rule run_cinv)
  from run_measures [OF inv begun more]
  have begun': "caller s' \<noteq> S_idle"
    and steps: "length (filter (\<lambda>x. \<not> is_Submit x) ys) + rank s' \<le> rank s"
    and bodies: "invoked s' + may_invoke s' \<le> invoked s + may_invoke s"
    by simp_all
  from inv begun have flag: "keep_running (pool s) = 0"
    by (rule begun_flag)
  have "\<exists>t. worker_step i s = Some t \<and> workers t = (workers s)[i := W_exit] \<and>
          pool t = pool s \<and> heap (wld t) = heap (wld s) \<and> invoked t = invoked s"
    if "i < length (workers s)" and "workers s ! i = W_top \<or> workers s ! i = W_check" for i
    using that flag by (auto simp: worker_step_def invoked_def emit_def is_Invoke_def)
  moreover from bodies have "invoked s' \<le> invoked s + may_invoke s"
    by simp
  moreover from steps have "length (filter (\<lambda>x. \<not> is_Submit x) ys) \<le> rank s"
    by simp
  moreover have "shutdown_step s' \<noteq> None \<or> (\<exists>i < length (workers s'). worker_step i s' \<noteq> None)"
    if "caller s' \<noteq> S_done"
    using inv' begun' that by (rule progress)
  moreover have "filter is_Invoke (trace (wld s')) = filter is_Invoke (trace (wld s))"
    if "caller s = S_done"
    using inv that more by (rule run_after_done)
  ultimately show ?thesis
    using may_invoke_le [of s] rank_le [of s] by blast
qed

theorem shutdown_begun_bounds_witness:
  "thread_pool_init
       (Some \<lparr>threads = None, num_threads = 0, queue = \<lparr>front = None, rear = None\<rparr>,
               keep_running = 0\<rparr>)
       1 True (\<lambda>i. Some 100) \<lparr>heap = fmempty, trace = []\<rparr>
     = (Some \<lparr>threads = Some [Thread 100], num_threads = 1,
               queue = \<lparr>front = None, rear = None\<rparr>, keep_running = 1\<rparr>,
        \<lparr>heap = fmempty, trace = [Mutex_init, Cond_init, Thread_create 0]\<rparr>) \<and>
   run [Work 0, Shut]
     (pool_start
        \<lparr>threads = Some [Thread 100], num_threads = 1,
           queue = \<lparr>front = None, rear = None\<rparr>, keep_running = 1\<rparr>
        \<lparr>heap = fmempty, trace = [Mutex_init, Cond_init, Thread_create 0]\<rparr>)
     = Some
     \<lparr>pool = \<lparr>threads = Some [Thread 100], num_threads = 1,
                queue = \<lparr>front = None, rear = None\<rparr>, keep_running = 0\<rparr>,
       wld = \<lparr>heap = fmempty, trace = [Mutex_init, Cond_init, Thread_create 0]\<rparr>,
       lock_owner = None, workers = [W_lock], caller = S_lock\<rparr> \<and>
   run [Submit 7 70 (Some 0), Work 0, Work 0, Work 0, Work 0, Work 0, Work 0,
        Shut, Shut, Shut, Shut]
     \<lparr>pool = \<lparr>threads = Some [Thread 100], num_threads = 1,
                queue = \<lparr>front = None, rear = None\<rparr>, keep_running = 0\<rparr>,
       wld = \<lparr>heap = fmempty, trace = [Mutex_init, Cond_init, Thread_create 0]\<rparr>,
       lock_owner = None, workers = [W_lock], caller = S_lock\<rparr>
     = Some
     \<lparr>pool = \<lparr>threads = None, num_threads = 0,
                queue = \<lparr>front = None, rear = None\<rparr>, keep_running = 0\<rparr>,
       wld = \<lparr>heap = fmdrop 0 (fmupd 0 \<lparr>func = 7, arg = 70, nxt = None\<rparr> fmempty),
              trace = [Mutex_init, Cond_init, Thread_create 0,
                       Mutex_lock, Cond_signal, Mutex_unlock,
                       Mutex_lock, Mutex_unlock, Invoke 7 70,
                       Mutex_lock, Cond_broadcast, Mutex_unlock,
                       Thread_join (Thread 100), Mutex_destroy, Cond_destroy]\<rparr>,
       lock_owner = None, workers = [W_exit], caller = S_done\<rparr> \<and>
   invoked
     \<lparr>pool = \<lparr>threads = None, num_threads = 0,
                queue = \<lparr>front = None, rear = None\<rparr>, keep_running = 0\<rparr>,
       wld = \<lparr>heap = fmdrop 0 (fmupd 0 \<lparr>func = 7, arg = 70, nxt = None\<rparr> fmempty),
              trace = [Mutex_init, Cond_init, Thread_create 0,
                       Mutex_lock, Cond_signal, Mutex_unlock,
                       Mutex_lock, Mutex_unlock, Invoke 7 70,
                       Mutex_lock, Cond_broadcast, Mutex_unlock,
                       Thread_join (Thread 100), Mutex_destroy, Cond_destroy]\<rparr>,
       lock_owner = None, workers = [W_exit], caller = S_done\<rparr>
     \<le> invoked
         \<lparr>pool = \<lparr>threads = Some [Thread 100], num_threads = 1,
                queue = \<lparr>front = None, rear = None\<rparr>, keep_running = 0\<rparr>,
       wld = \<lparr>heap = fmempty, trace = [Mutex_init, Cond_init, Thread_create 0]\<rparr>,
       lock_owner = None, workers = [W_lock], caller = S_lock\<rparr>
       + may_invoke
         \<lparr>pool = \<lparr>threads = Some [Thread 100], num_threads = 1,
                queue = \<lparr>front = None, rear = None\<rparr>, keep_running = 0\<rparr>,
       wld = \<lparr>heap = fmempty, trace = [Mutex_init, Cond_init, Thread_create 0]\<rparr>,
       lock_owner = None, workers = [W_lock], caller = S_lock\<rparr> \<and>
   length (filter (\<lambda>x. \<not> is_Submit x)
     [Submit 7 70 (Some 0), Work 0, Work 0, Work 0, Work 0, Work 0, Work 0,
        Shut, Shut, Shut, Shut])
     \<le> rank
         \<lparr>pool = \<lparr>threads = Some [Thread 100], num_threads = 1,
                queue = \<lparr>front = None, rear = None\<rparr>, keep_running = 0\<rparr>,
       wld = \<lparr>heap = fmempty, trace = [Mutex_init, Cond_init, Thread_create 0]\<rparr>,
       lock_owner = None, workers = [W_lock], caller = S_lock\<rparr>"
proof -
  let ?pa = "\<lparr>threads = None, num_threads = 0, queue = \<lparr>front = None, rear = None\<rparr>,
               keep_running = 0\<rparr>"
  let ?wa = "\<lparr>heap = fmempty, trace = []\<rparr>"
  let ?p = "\<lparr>threads = Some [Thread 100], num_threads = 1,
              queue = \<lparr>front = None, rear = None\<rparr>, keep_running = 1\<rparr>"
  let ?w = "\<lparr>heap = fmempty, trace = [Mutex_init, Cond_init, Thread_create 0]\<rparr>"
  let ?s = "\<lparr>pool = \<lparr>threads = Some [Thread 100], num_threads = 1,
                queue = \<lparr>front = None, rear = None\<rparr>, keep_running = 0\<rparr>,
       wld = \<lparr>heap = fmempty, trace = [Mutex_init, Cond_init, Thread_create 0]\<rparr>,
       lock_owner = None, workers = [W_lock], caller = S_lock\<rparr>"
  let ?ys = "[Submit 7 70 (Some 0), Work 0, Work 0, Work 0, Work 0, Work 0, Work 0,
        Shut, Shut, Shut, Shut]"
  let ?t = "\<lparr>pool = \<lparr>threads = None, num_threads = 0,
                queue = \<lparr>front = None, rear = None\<rparr>, keep_running = 0\<rparr>,
       wld = \<lparr>heap = fmdrop 0 (fmupd 0 \<lparr>func = 7, arg = 70, nxt = None\<rparr> fmempty),
              trace = [Mutex_init, Cond_init, Thread_create 0,
                       Mutex_lock, Cond_signal, Mutex_unlock,
                       Mutex_lock, Mutex_unlock, Invoke 7 70,
                       Mutex_lock, Cond_broadcast, Mutex_unlock,
                       Thread_join (Thread 100), Mutex_destroy, Cond_destroy]\<rparr>,
       lock_owner = None, workers = [W_exit], caller = S_done\<rparr>"
  have init: "thread_pool_init (Some ?pa) 1 True (\<lambda>i. Some 100) ?wa = (Some ?p, ?w)"
    by code_simp
  have started: "\<forall>i < nat 1. (\<lambda>i. Some (100 :: nat)) i \<noteq> None"
    by simp
  have reach: "run [Work 0, Shut] (pool_start ?p ?w) = Some ?s"
    by (simp add: pool_start_def worker_step_def shutdown_step_def)
  have begun: "caller ?s \<noteq> S_idle"
    by simp
  have more: "run ?ys ?s = Some ?t"
    by (simp add: worker_step_def shutdown_step_def submit_step_def thread_pool_add_task_def
        queue_push_def queue_pop_def queue_destroy_def emit_def)
  from shutdown_begun_bounds [OF init started reach begun more]
  have "invoked ?t \<le> invoked ?s + may_invoke ?s"
    and "length (filter (\<lambda>x. \<not> is_Submit x) ?ys) \<le> rank ?s"
    by blast+
  with init reach more show ?thesis
    by (intro conjI)
qed

text \<open>
  Claim C5 (destroy drains without executing).  On a well-formed queue holding the nodes
  \<open>as\<close>, \<open>queue_destroy\<close> returns with \<open>front\<close> and \<open>rear\<close> both null, every node of \<open>as\<close>
  freed and nothing else, and no task body invoked: the invocations in the trace are the
  ones that were there before.
\<close>

theorem queue_destroy_drains:
  assumes "queue_wf (heap w) q as"
  shows "\<exists>q' w'. queue_destroy q w = Inr (q', w') \<and>
           front q' = None \<and> rear q' = None \<and>
           heap w' = fmfilter (\<lambda>x. x \<notin> set as) (heap w) \<and>
           (\<forall>a \<in> set as. a |\<notin>| fmdom (heap w')) \<and>
           filter is_Invoke (trace w') = filter is_Invoke (trace w)"
proof -
  from assms have "queue_destroy_loop (front q) (heap w)
                     = Inr (fmfilter (\<lambda>x. x \<notin> set as) (heap w))"
    by (simp add: queue_wf_def queue_destroy_loop_chain)
  then show ?thesis
    by (simp add: queue_destroy_def emit_def is_Invoke_def)
qed

theorem queue_destroy_drains_witness:
  "queue_wf (fmupd 0 \<lparr>func = 7, arg = 70, nxt = Some 1\<rparr>
              (fmupd 1 \<lparr>func = 8, arg = 80, nxt = None\<rparr> fmempty))
     \<lparr>front = Some 0, rear = Some 1\<rparr> [0, 1] \<and>
   (\<exists>q' w'. queue_destroy \<lparr>front = Some 0, rear = Some 1\<rparr>
               \<lparr>heap = fmupd 0 \<lparr>func = 7, arg = 70, nxt = Some 1\<rparr>
                         (fmupd 1 \<lparr>func = 8, arg = 80, nxt = None\<rparr> fmempty),
                  trace = [Invoke 5 50]\<rparr> = Inr (q', w') \<and>
      front q' = None \<and> rear q' = None \<and>
      0 |\<notin>| fmdom (heap w') \<and> 1 |\<notin>| fmdom (heap w') \<and>
      filter is_Invoke (trace w') = [Invoke 5 50])"
proof -
  let ?h = "fmupd 0 \<lparr>func = 7, arg = 70, nxt = Some 1\<rparr>
              (fmupd 1 \<lparr>func = 8, arg = 80, nxt = None\<rparr> fmempty)"
  let ?q = "\<lparr>front = Some 0, rear = Some 1\<rparr>"
  let ?w = "\<lparr>heap = ?h, trace = [Invoke 5 50]\<rparr>"
  have wf: "queue_wf (heap ?w) ?q [0, 1]"
    by (simp add: queue_wf_def)
  from queue_destroy_drains [OF wf]
  obtain q' w' where "queue_destroy ?q ?w = Inr (q', w')" and "front q' = None"
    and "rear q' = None" and "\<forall>a \<in> set [0, 1]. a |\<notin>| fmdom (heap w')"
    and "filter is_Invoke (trace w') = filter is_Invoke (trace ?w)"
    by blast
  then have "\<exists>q' w'. queue_destroy ?q ?w = Inr (q', w') \<and>
      front q' = None \<and> rear q' = None \<and>
      0 |\<notin>| fmdom (heap w') \<and> 1 |\<notin>| fmdom (heap w') \<and>
      filter is_Invoke (trace w') = [Invoke 5 50]"
    by (simp add: is_Invoke_def)
  with wf show ?thesis
    by simp
qed

text \<open>
  Claim C6 (push failure atomicity).  When \<open>malloc\<close> returns \<open>NULL\<close>, \<open>queue_push\<close> writes its
  diagnostic to \<open>stderr\<close> and returns: the queue object and the heap, hence the node
  sequence, are what they were, nothing else happens (no lock taken, no second attempt), and
  \<open>thread_pool_add_task\<close> hands the caller the pool unchanged with no error indication.
\<close>

theorem queue_push_alloc_failure:
  "queue_push q f a None w
     = Inr (q, \<lparr>heap = heap w,
               trace = trace w @ [Stderr ''queue_push: failed to allocate task_node\<newline>'']\<rparr>) \<and>
   thread_pool_add_task (Some p) f a None w
     = Inr (Some p, \<lparr>heap = heap w,
               trace = trace w @ [Stderr ''queue_push: failed to allocate task_node\<newline>'']\<rparr>)"
  by (simp add: queue_push_def thread_pool_add_task_def emit_def)

text \<open>
  Claim C7 (pop postcondition).  On an empty queue (\<open>front\<close> null) \<open>queue_pop\<close> returns the
  null pointer and leaves the queue as it was.  On a queue holding the nodes \<open>a # as\<close> it
  returns \<open>a\<close> and leaves a queue holding \<open>as\<close>; when \<open>a\<close> was the last node, \<open>rear\<close> is
  cleared together with \<open>front\<close>, otherwise \<open>rear\<close> is untouched.
\<close>

theorem queue_pop_postcondition:
  "(front q = None \<longrightarrow> queue_pop q h = Inr (None, q)) \<and>
   (queue_wf h q (a # as) \<longrightarrow>
      (\<exists>q'. queue_pop q h = Inr (Some a, q') \<and> queue_wf h q' as \<and>
            (as = [] \<longrightarrow> front q' = None \<and> rear q' = None) \<and>
            (as \<noteq> [] \<longrightarrow> front q' = Some (hd as) \<and> rear q' = rear q)))"
  using queue_pop_wf [of h q a as] by (simp add: queue_pop_empty)

theorem queue_pop_postcondition_witness:
  "front \<lparr>front = None, rear = None\<rparr> = None \<and>
   queue_pop \<lparr>front = None, rear = None\<rparr> fmempty = Inr (None, \<lparr>front = None, rear = None\<rparr>) \<and>
   queue_wf (fmupd 0 \<lparr>func = 7, arg = 70, nxt = Some 1\<rparr>
              (fmupd 1 \<lparr>func = 8, arg = 80, nxt = None\<rparr> fmempty))
     \<lparr>front = Some 0, rear = Some 1\<rparr> [0, 1] \<and>
   queue_pop \<lparr>front = Some 0, rear = Some 1\<rparr>
       (fmupd 0 \<lparr>func = 7, arg = 70, nxt = Some 1\<rparr>
          (fmupd 1 \<lparr>func = 8, arg = 80, nxt = None\<rparr> fmempty))
     = Inr (Some 0, \<lparr>front = Some 1, rear = Some 1\<rparr>) \<and>
   queue_wf (fmupd 0 \<lparr>func = 7, arg = 70, nxt = Some 1\<rparr>
              (fmupd 1 \<lparr>func = 8, arg = 80, nxt = None\<rparr> fmempty))
     \<lparr>front = Some 1, rear = Some 1\<rparr> [1]"
proof -
  let ?h = "fmupd 0 \<lparr>func = 7, arg = 70, nxt = Some 1\<rparr>
              (fmupd 1 \<lparr>func = 8, arg = 80, nxt = None\<rparr> fmempty)"
  let ?e = "\<lparr>front = None, rear = None\<rparr>"
  let ?q = "\<lparr>front = Some 0, rear = Some 1\<rparr>"
  have empty: "front ?e = None"
    by simp
  have wf: "queue_wf ?h ?q [0, 1]"
    by (simp add: queue_wf_def)
  have pop: "queue_pop ?q ?h = Inr (Some 0, \<lparr>front = Some 1, rear = Some 1\<rparr>)"
    by (simp add: queue_pop_def)
  from queue_pop_postcondition [of ?e fmempty 0 "[]"] empty
  have c1: "queue_pop ?e fmempty = Inr (None, ?e)"
    by blast
  from queue_pop_postcondition [of ?q ?h 0 "[1]"] wf
  obtain q' where "queue_pop ?q ?h = Inr (Some 0, q')" and "queue_wf ?h q' [1]"
    by blast
  with pop have c2: "queue_wf ?h \<lparr>front = Some 1, rear = Some 1\<rparr> [1]"
    by simp
  from empty c1 wf pop c2 show ?thesis
    by (intro conjI)
qed

text \<open>
  Claim C8 (second sequential shutdown).  When \<open>thread_pool_shutdown\<close> completes on a pool
  whose \<open>threads\<close> is not null, it leaves \<open>threads\<close> null and \<open>num_threads\<close> zero, and a
  second call on that pool returns at the guard: pool, heap and trace are unchanged.
\<close>

theorem shutdown_twice_noop:
  assumes "threads p \<noteq> None"
    and "thread_pool_shutdown (Some p) w = Inr (r, w')"
  shows "\<exists>p'. r = Some p' \<and> threads p' = None \<and> num_threads p' = 0 \<and>
           thread_pool_shutdown (Some p') w' = Inr (Some p', w')"
proof -
  from assms obtain p' where "r = Some p'" and "threads p' = None" and "num_threads p' = 0"
    by (auto simp: thread_pool_shutdown_def Let_def split: option.splits sum.splits)
  moreover from \<open>threads p' = None\<close> have "thread_pool_shutdown (Some p') w' = Inr (Some p', w')"
    by (simp add: thread_pool_shutdown_def)
  ultimately show ?thesis
    by blast
qed

theorem shutdown_twice_noop_witness:
  "threads \<lparr>threads = Some [Thread 100, Thread 101], num_threads = 2,
             queue = \<lparr>front = Some 0, rear = Some 0\<rparr>, keep_running = 1\<rparr> \<noteq> None \<and>
   thread_pool_shutdown
       (Some \<lparr>threads = Some [Thread 100, Thread 101], num_threads = 2,
               queue = \<lparr>front = Some 0, rear = Some 0\<rparr>, keep_running = 1\<rparr>)
       \<lparr>heap = fmupd 0 \<lparr>func = 7, arg = 70, nxt = None\<rparr> fmempty, trace = []\<rparr>
     = Inr (Some \<lparr>threads = None, num_threads = 0,
                   queue = \<lparr>front = None, rear = None\<rparr>, keep_running = 0\<rparr>,
            \<lparr>heap = fmdrop 0 (fmupd 0 \<lparr>func = 7, arg = 70, nxt = None\<rparr> fmempty),
               trace = [Mutex_lock, Cond_broadcast, Mutex_unlock,
                        Thread_join (Thread 100), Thread_join (Thread 101),
                        Mutex_destroy, Cond_destroy]\<rparr>) \<and>
   thread_pool_shutdown
       (Some \<lparr>threads = None, num_threads = 0,
               queue = \<lparr>front = None, rear = None\<rparr>, keep_running = 0\<rparr>)
       \<lparr>heap = fmdrop 0 (fmupd 0 \<lparr>func = 7, arg = 70, nxt = None\<rparr> fmempty),
          trace = [Mutex_lock, Cond_broadcast, Mutex_unlock,
                   Thread_join (Thread 100), Thread_join (Thread 101),
                   Mutex_destroy, Cond_destroy]\<rparr>
     = Inr (Some \<lparr>threads = None, num_threads = 0,
                   queue = \<lparr>front = None, rear = None\<rparr>, keep_running = 0\<rparr>,
            \<lparr>heap = fmdrop 0 (fmupd 0 \<lparr>func = 7, arg = 70, nxt = None\<rparr> fmempty),
               trace = [Mutex_lock, Cond_broadcast, Mutex_unlock,
                        Thread_join (Thread 100), Thread_join (Thread 101),
                        Mutex_destroy, Cond_destroy]\<rparr>)"
proof -
  let ?p = "\<lparr>threads = Some [Thread 100, Thread 101], num_threads = 2,
             queue = \<lparr>front = Some 0, rear = Some 0\<rparr>, keep_running = 1\<rparr>"
  let ?w = "\<lparr>heap = fmupd 0 \<lparr>func = 7, arg = 70, nxt = None\<rparr> fmempty, trace = []\<rparr>"
  let ?p' = "\<lparr>threads = None, num_threads = 0,
              queue = \<lparr>front = None, rear = None\<rparr>, keep_running = 0\<rparr>"
  let ?w' = "\<lparr>heap = fmdrop 0 (fmupd 0 \<lparr>func = 7, arg = 70, nxt = None\<rparr> fmempty),
               trace = [Mutex_lock, Cond_broadcast, Mutex_unlock,
                        Thread_join (Thread 100), Thread_join (Thread 101),
                        Mutex_destroy, Cond_destroy]\<rparr>"
  have valid: "threads ?p \<noteq> None"
    by simp
  have first: "thread_pool_shutdown (Some ?p) ?w = Inr (Some ?p', ?w')"
    by (simp add: thread_pool_shutdown_def join_loop.simps queue_destroy_def emit_def)
  from shutdown_twice_noop [OF valid first]
  have "thread_pool_shutdown (Some ?p') ?w' = Inr (Some ?p', ?w')"
    by simp
  with valid first show ?thesis
    by (intro conjI)
qed

text \<open>
  Claim C9 (submission ignores the running flag).  For a non-null pool,
  \<open>thread_pool_add_task\<close> returns what \<open>queue_push\<close> on the pool's queue returns, for every
  value \<open>k\<close> of \<open>keep_running\<close>, which it leaves as it was.  So with a well-formed queue and a
  successful \<open>malloc\<close> the task is appended to the queue, also when the flag is zero.
\<close>

theorem add_task_ignores_keep_running:
  assumes "queue_wf (heap w) (queue p) as" and "m |\<notin>| fmdom (heap w)"
  shows "(\<forall>k r. thread_pool_add_task (Some (p\<lparr>keep_running := k\<rparr>)) f a r w
                  = (case queue_push (queue p) f a r w of
                       Inl e \<Rightarrow> Inl e
                     | Inr (q, w') \<Rightarrow> Inr (Some (p\<lparr>keep_running := k, queue := q\<rparr>), w'))) \<and>
         (\<exists>q' w'. queue_wf (heap w') q' (as @ [m]) \<and>
            task_of (heap w') (Some m) = Some (f, a) \<and>
            (\<forall>k. thread_pool_add_task (Some (p\<lparr>keep_running := k\<rparr>)) f a (Some m) w
                   = Inr (Some (p\<lparr>keep_running := k, queue := q'\<rparr>), w')))"
proof -
  have delegate: "thread_pool_add_task (Some (p\<lparr>keep_running := k\<rparr>)) f a r w
      = (case queue_push (queue p) f a r w of
           Inl e \<Rightarrow> Inl e
         | Inr (q, w') \<Rightarrow> Inr (Some (p\<lparr>keep_running := k, queue := q\<rparr>), w'))" for k r
    by (simp add: thread_pool_add_task_def split: sum.splits)
  from queue_push_wf [OF assms, of f a]
  obtain q' w' where push: "queue_push (queue p) f a (Some m) w = Inr (q', w')"
    and wf: "queue_wf (heap w') q' (as @ [m])" and task: "task_of (heap w') (Some m) = Some (f, a)"
    by blast
  from push have "thread_pool_add_task (Some (p\<lparr>keep_running := k\<rparr>)) f a (Some m) w
      = Inr (Some (p\<lparr>keep_running := k, queue := q'\<rparr>), w')" for k
    by (simp add: delegate)
  with wf task delegate show ?thesis
    by blast
qed

theorem add_task_ignores_keep_running_witness:
  "queue_wf (heap \<lparr>heap = fmupd 0 \<lparr>func = 7, arg = 70, nxt = None\<rparr> fmempty, trace = []\<rparr>)
     (queue \<lparr>threads = Some [Thread 100], num_threads = 1,
              queue = \<lparr>front = Some 0, rear = Some 0\<rparr>, keep_running = 1\<rparr>) [0] \<and>
   1 |\<notin>| fmdom (heap \<lparr>heap = fmupd 0 \<lparr>func = 7, arg = 70, nxt = None\<rparr> fmempty, trace = []\<rparr>) \<and>
   (\<exists>q' w'. queue_wf (heap w') q' [0, 1] \<and>
      task_of (heap w') (Some 1) = Some (8, 80) \<and>
      thread_pool_add_task
          (Some \<lparr>threads = Some [Thread 100], num_threads = 1,
                  queue = \<lparr>front = Some 0, rear = Some 0\<rparr>, keep_running = 0\<rparr>)
          8 80 (Some 1)
          \<lparr>heap = fmupd 0 \<lparr>func = 7, arg = 70, nxt = None\<rparr> fmempty, trace = []\<rparr>
        = Inr (Some \<lparr>threads = Some [Thread 100], num_threads = 1,
                      queue = q', keep_running = 0\<rparr>, w'))"
proof -
  let ?p = "\<lparr>threads = Some [Thread 100], num_threads = 1,
              queue = \<lparr>front = Some 0, rear = Some 0\<rparr>, keep_running = 1\<rparr>"
  let ?w = "\<lparr>heap = fmupd 0 \<lparr>func = 7, arg = 70, nxt = None\<rparr> fmempty, trace = []\<rparr>"
  have wf: "queue_wf (heap ?w) (queue ?p) [0]"
    by (simp add: queue_wf_def)
  have fresh: "1 |\<notin>| fmdom (heap ?w)"
    by simp
  from add_task_ignores_keep_running [OF wf fresh, of 8 80]
  obtain q' w' where "queue_wf (heap w') q' ([0] @ [1])"
    and "task_of (heap w') (Some 1) = Some (8, 80)"
    and "\<forall>k. thread_pool_add_task (Some (?p\<lparr>keep_running := k\<rparr>)) 8 80 (Some 1) ?w
            = Inr (Some (?p\<lparr>keep_running := k, queue := q'\<rparr>), w')"
    by blast
  then have "queue_wf (heap w') q' [0, 1] \<and>
      task_of (heap w') (Some 1) = Some (8, 80) \<and>
      thread_pool_add_task (Some (?p\<lparr>keep_running := 0\<rparr>)) 8 80 (Some 1) ?w
        = Inr (Some (?p\<lparr>keep_running := 0, queue := q'\<rparr>), w')"
    by simp
  then have "\<exists>q' w'. queue_wf (heap w') q' [0, 1] \<and>
      task_of (heap w') (Some 1) = Some (8, 80) \<and>
      thread_pool_add_task
          (Some \<lparr>threads = Some [Thread 100], num_threads = 1,
                  queue = \<lparr>front = Some 0, rear = Some 0\<rparr>, keep_running = 0\<rparr>)
          8 80 (Some 1) ?w
        = Inr (Some \<lparr>threads = Some [Thread 100], num_threads = 1,
                      queue = q', keep_running = 0\<rparr>, w')"
    by auto
  with wf fresh show ?thesis
    by (intro conjI)
qed

text \<open>
  Claim C10 (sleep lower bound), evaluated where the code departs from it.  For
  \<open>ms = 4294968\<close> the product \<open>ms * 1000\<close> wraps around in \<open>unsigned int\<close>: the POSIX
  \<open>platform_sleep_ms\<close> asks \<open>usleep\<close> for 704 microseconds, fewer than the 4294968000
  requested, whereas the Windows one passes the milliseconds on unchanged.  (Up to
  \<open>ms = 4294967\<close> the product is exact, see \<open>platform_sleep_ms_posix_exact\<close>.)
\<close>

theorem platform_sleep_ms_posix_wraps:
  "platform_sleep_ms_posix 4294968 = Usleep 704 \<and>
   requested_micros (platform_sleep_ms_posix 4294968) < 1000 * unat (4294968 :: 32 word) \<and>
   requested_micros (platform_sleep_ms_windows 4294968) = 1000 * unat (4294968 :: 32 word)"
  by (simp add: platform_sleep_ms_posix_def platform_sleep_ms_windows_def)

end
